theory Spec2Isabelle
  imports Main "HOL-Library.AList" "HOL-Library.Char_ord" "HOL-Library.List_Lexorder"
    "HOL-Library.Multiset" "HOL-Library.Sublist"
begin

section \<open>Data model\<close>

text \<open>
  The notes vault (\<^verbatim>\<open>noting/js/core/store.js\<close>, with the IndexedDB wrapper \<^verbatim>\<open>db.js\<close>)
  keeps a tree of folders and leaves. Ids and names are JavaScript strings, modelled as
  \<open>string\<close> (ASCII); a nullable \<^verbatim>\<open>parentId\<close> is a \<open>string option\<close> with \<open>None\<close> for
  \<^verbatim>\<open>null\<close>; \<^verbatim>\<open>orderIndex\<close> and the timestamps are integers. \<^verbatim>\<open>Date.now()\<close> and
  \<^verbatim>\<open>generateId()\<close> are inputs of the operations that call them, one reading of the clock
  for each operation.
\<close>

datatype node_type = Folder | Leaf

record node =
  node_id :: string
  parentId :: "string option"
  node_type :: node_type
  name :: string
  orderIndex :: int
  active :: bool
  createdAt :: int
  updatedAt :: int

record content =
  content_nodeId :: string
  content_markdown :: string
  content_fields :: "(string \<times> string) list"
  content_tags :: "string list"
  content_links :: "string list"
  content_icon :: string
  content_updatedAt :: int

text \<open>An entry of the in-memory search index, as \<^verbatim>\<open>buildSearchIndex\<close> stores it.\<close>

record indexed =
  indexed_id :: string
  indexed_name :: string
  indexed_type :: node_type
  indexed_path :: string

text \<open>
  A JavaScript \<^verbatim>\<open>Map\<close> iterates in insertion order: it is an association list with
  \<^verbatim>\<open>get\<close> = \<open>map_of\<close>, \<^verbatim>\<open>set\<close> = \<open>AList.update\<close> (replace in place, or append a
  new key at the end) and \<^verbatim>\<open>delete\<close> = \<open>AList.delete\<close>.
\<close>

type_synonym node_map = "(string \<times> node) list"

text \<open>JavaScript truthiness of a string-or-null value: \<^verbatim>\<open>null\<close> and \<^verbatim>\<open>""\<close> are falsy.\<close>

fun falsy :: "string option \<Rightarrow> bool" where
  "falsy None = True"
| "falsy (Some s) = (s = [])"

section \<open>Tree walks\<close>

text \<open>
  \<^verbatim>\<open>getChildren(parentId)\<close>: every node of the map whose \<^verbatim>\<open>parentId\<close> is strictly equal
  to the argument, in map order, then sorted by \<^verbatim>\<open>orderIndex\<close> (the sort is stable).
\<close>

definition getChildren :: "node_map \<Rightarrow> string option \<Rightarrow> node list" where
  "getChildren ns p = sort_key orderIndex (filter (\<lambda>n. parentId n = p) (map snd ns))"

text \<open>
  \<^verbatim>\<open>isDescendant(potentialDescendant, ancestorId)\<close> recurses along \<^verbatim>\<open>parentId\<close> with no
  bound; a walk that never ends is the value \<open>None\<close>.
\<close>

partial_function (option) isDescendant :: "node_map \<Rightarrow> string option \<Rightarrow> string \<Rightarrow> bool option" where
  "isDescendant ns potentialDescendant ancestorId =
     (if potentialDescendant = Some ancestorId then Some True
      else if falsy potentialDescendant then Some False
      else (case map_of ns (the potentialDescendant) of
              None \<Rightarrow> Some False
            | Some n \<Rightarrow> isDescendant ns (parentId n) ancestorId))"

declare isDescendant.simps [code]

text \<open>
  The step of the \<^verbatim>\<open>while\<close> loop of \<^verbatim>\<open>getNodePath\<close>:
  \<^verbatim>\<open>current.parentId ? this.nodes.get(current.parentId) : null\<close>.
\<close>

definition parentNode :: "node_map \<Rightarrow> node \<Rightarrow> node option" where
  "parentNode ns current =
     (if falsy (parentId current) then None else map_of ns (the (parentId current)))"

partial_function (option) getNodePath_loop :: "node_map \<Rightarrow> node option \<Rightarrow> node list \<Rightarrow> node list option" where
  "getNodePath_loop ns current path =
     (case current of
        None \<Rightarrow> Some path
      | Some c \<Rightarrow> getNodePath_loop ns (parentNode ns c) (c # path))"

declare getNodePath_loop.simps [code]

definition getNodePath :: "node_map \<Rightarrow> string \<Rightarrow> node list option" where
  "getNodePath ns nodeId = getNodePath_loop ns (map_of ns nodeId) []"

section \<open>The persistence layer\<close>

text \<open>
  \<^verbatim>\<open>db.js\<close> wraps two IndexedDB object stores: \<^verbatim>\<open>nodes\<close> (key path \<^verbatim>\<open>id\<close>) and
  \<^verbatim>\<open>content\<close> (key path \<^verbatim>\<open>nodeId\<close>). An object store holds one record per key and
  \<^verbatim>\<open>getAll\<close> returns the records in ascending key order, so a store is an association
  list kept sorted by key. Requests are taken to succeed (a rejected request is the
  \<^verbatim>\<open>PersistenceError\<close> of the design, outside this model).
\<close>

record database =
  db_nodes :: "(string \<times> node) list"
  db_content :: "(string \<times> content) list"

text \<open>\<^verbatim>\<open>IDBObjectStore.put\<close>: replace the record of the key, or insert it in key order.\<close>

fun put :: "string \<Rightarrow> 'a \<Rightarrow> (string \<times> 'a) list \<Rightarrow> (string \<times> 'a) list" where
  "put k v [] = [(k, v)]"
| "put k v ((k', v') # rest) =
     (if k < k' then (k, v) # (k', v') # rest
      else if k = k' then (k, v) # rest
      else (k', v') # put k v rest)"


definition db_saveNode :: "node \<Rightarrow> database \<Rightarrow> database" where
  "db_saveNode n d = d\<lparr>db_nodes := put (node_id n) n (db_nodes d)\<rparr>"

text \<open>\<^verbatim>\<open>Database.deleteNode\<close> deletes the node and its content in one transaction.\<close>

definition db_deleteNode :: "string \<Rightarrow> database \<Rightarrow> database" where
  "db_deleteNode k d =
     d\<lparr>db_nodes := AList.delete k (db_nodes d), db_content := AList.delete k (db_content d)\<rparr>"

definition default_icon :: string where
  "default_icon = [CHR 0xF0, CHR 0x9F, CHR 0x93, CHR 0x84]"

definition getDefaultContent :: "int \<Rightarrow> string \<Rightarrow> content" where
  "getDefaultContent now k =
     \<lparr>content_nodeId = k, content_markdown = [], content_fields = [], content_tags = [],
      content_links = [], content_icon = default_icon, content_updatedAt = now\<rparr>"

definition db_getContent :: "int \<Rightarrow> string \<Rightarrow> database \<Rightarrow> content" where
  "db_getContent now k d =
     (case map_of (db_content d) k of Some c \<Rightarrow> c | None \<Rightarrow> getDefaultContent now k)"

definition db_saveContent :: "content \<Rightarrow> database \<Rightarrow> database" where
  "db_saveContent c d = d\<lparr>db_content := put (content_nodeId c) c (db_content d)\<rparr>"





section \<open>The store\<close>

datatype event =
    Initialized
  | NodesChanged
  | NodeCreated node
  | NodeUpdated node
  | NodeDeleted string
  | NodeMoved node
  | SelectionChanged "string option"
  | ContentChanged content
  | ActiveChanged string
  | ExpansionChanged string

datatype error = CycleError | TypeError

text \<open>
  The fields of the \<^verbatim>\<open>Store\<close> object, the database singleton it writes through, and
  the events it has emitted, oldest first (the listeners themselves are outside the model).
\<close>

record store =
  nodes :: node_map
  rootNodes :: "string list"
  expandedNodes :: "string list"
  selectedNodeId :: "string option"
  currentContent :: "content option"
  searchIndex :: "(string \<times> indexed) list"
  emitted :: "event list"
  db :: database

definition emit :: "event \<Rightarrow> store \<Rightarrow> store" where
  "emit e s = s\<lparr>emitted := emitted s @ [e]\<rparr>"

definition getNode :: "store \<Rightarrow> string \<Rightarrow> node option" where
  "getNode s k = map_of (nodes s) k"

subsection \<open>Search index\<close>

text \<open>\<^verbatim>\<open>toLowerCase\<close> and \<^verbatim>\<open>trim\<close> on ASCII strings.\<close>

definition lower_char :: "char \<Rightarrow> char" where
  "lower_char c =
     (if CHR ''A'' \<le> c \<and> c \<le> CHR ''Z'' then char_of (of_char c + (32::nat)) else c)"

definition toLowerCase :: "string \<Rightarrow> string" where
  "toLowerCase s = map lower_char s"

definition is_space :: "char \<Rightarrow> bool" where
  "is_space c = (c \<in> set [CHR 0x09, CHR 0x0A, CHR 0x0B, CHR 0x0C, CHR 0x0D, CHR 0x20])"

definition trim :: "string \<Rightarrow> string" where
  "trim s = rev (dropWhile is_space (rev (dropWhile is_space s)))"

fun join :: "string \<Rightarrow> string list \<Rightarrow> string" where
  "join sep [] = []"
| "join sep [x] = x"
| "join sep (x # y # rest) = x @ sep @ join sep (y # rest)"

text \<open>\<^verbatim>\<open>String.prototype.startsWith\<close> and \<^verbatim>\<open>includes\<close>.\<close>

definition startsWith :: "string \<Rightarrow> string \<Rightarrow> bool" where
  "startsWith s q = (take (length q) s = q)"

fun js_includes :: "string \<Rightarrow> string \<Rightarrow> bool" where
  "js_includes [] q = (q = [])"
| "js_includes (c # s) q = (startsWith (c # s) q \<or> js_includes s q)"

text \<open>
  \<^verbatim>\<open>buildSearchIndex\<close> clears the index and sets one entry per node of the map, in map
  order; each entry needs the node's path, so the rebuild returns only if every walk does.
\<close>

fun index_nodes :: "node_map \<Rightarrow> node list \<Rightarrow> (string \<times> indexed) list \<Rightarrow> (string \<times> indexed) list option" where
  "index_nodes ns [] idx = Some idx"
| "index_nodes ns (n # rest) idx =
     (case getNodePath ns (node_id n) of
        None \<Rightarrow> None
      | Some path \<Rightarrow>
          index_nodes ns rest
            (AList.update (node_id n)
               \<lparr>indexed_id = node_id n, indexed_name = toLowerCase (name n),
                indexed_type = node_type n,
                indexed_path = toLowerCase (join '' > '' (map name path))\<rparr> idx))"

definition buildSearchIndex :: "store \<Rightarrow> store option" where
  "buildSearchIndex s =
     map_option (\<lambda>idx. s\<lparr>searchIndex := idx\<rparr>) (index_nodes (nodes s) (map snd (nodes s)) [])"

definition calculateSearchScore :: "string \<Rightarrow> indexed \<Rightarrow> int" where
  "calculateSearchScore query ix =
     (if indexed_name ix = query then 100
      else if startsWith (indexed_name ix) query then 50
      else if js_includes (indexed_name ix) query then 20
      else 0)
     + (if js_includes (indexed_path ix) query then 10 else 0)"

record search_result =
  result_node :: "node option"
  result_score :: int
  result_path :: "node list"

text \<open>The loop of \<^verbatim>\<open>search\<close> over the index entries, pushing every entry that scores.\<close>

fun search_loop :: "node_map \<Rightarrow> string \<Rightarrow> (string \<times> indexed) list \<Rightarrow> search_result list option" where
  "search_loop ns lowerQuery [] = Some []"
| "search_loop ns lowerQuery ((k, ix) # rest) =
     (let score = calculateSearchScore lowerQuery ix in
      if score > 0 then
        (case getNodePath ns k of
           None \<Rightarrow> None
         | Some path \<Rightarrow>
             map_option
               (\<lambda>results. \<lparr>result_node = map_of ns k, result_score = score, result_path = path\<rparr> # results)
               (search_loop ns lowerQuery rest))
      else search_loop ns lowerQuery rest)"

text \<open>\<^verbatim>\<open>Array.prototype.slice(0, end)\<close>: a negative end counts from the end of the array.\<close>

definition slice0 :: "int \<Rightarrow> 'a list \<Rightarrow> 'a list" where
  "slice0 e xs = take (nat (if e < 0 then int (length xs) + e else e)) xs"

definition search :: "store \<Rightarrow> string \<Rightarrow> int \<Rightarrow> search_result list option" where
  "search s query limit =
     (if trim query = [] then Some []
      else map_option (\<lambda>results. slice0 limit (sort_key (\<lambda>r. - result_score r) results))
             (search_loop (nodes s) (toLowerCase query) (searchIndex s)))"

subsection \<open>Loading\<close>

text \<open>
  The comparator of the root sort reads \<^verbatim>\<open>this.nodes.get(a).orderIndex\<close>; it is called as
  soon as the array has two elements, and throws a \<^verbatim>\<open>TypeError\<close> on an id that is not in
  the map (\<open>None\<close> here; the array is then taken as it was before the sort).
\<close>

definition rootOrder :: "node_map \<Rightarrow> string \<Rightarrow> int" where
  "rootOrder ns k = (case map_of ns k of Some n \<Rightarrow> orderIndex n | None \<Rightarrow> 0)"

definition sortRootNodes :: "node_map \<Rightarrow> string list \<Rightarrow> string list option" where
  "sortRootNodes ns roots =
     (if length roots < 2 then Some roots
      else if list_all (\<lambda>k. map_of ns k \<noteq> None) roots then Some (sort_key (rootOrder ns) roots)
      else None)"


subsection \<open>Creating and updating\<close>

record createArgs =
  arg_name :: string
  arg_type :: node_type
  arg_parentId :: "string option"
  arg_template :: "string option"
  arg_icon :: "string option"
  arg_active :: bool

definition getDefaultIcon :: "string option \<Rightarrow> string" where
  "getDefaultIcon template =
     (case map_of
        [(''npc'', [CHR 0xF0, CHR 0x9F, CHR 0x91, CHR 0xA4]),
         (''location'', [CHR 0xF0, CHR 0x9F, CHR 0x8F, CHR 0xB0]),
         (''item'', [CHR 0xF0, CHR 0x9F, CHR 0x97, CHR 0xA1, CHR 0xEF, CHR 0xB8, CHR 0x8F]),
         (''quest'', [CHR 0xF0, CHR 0x9F, CHR 0x93, CHR 0x9C]),
         (''monster'', [CHR 0xF0, CHR 0x9F, CHR 0x90, CHR 0x89]),
         (''faction'', [CHR 0xE2, CHR 0x9A, CHR 0x94, CHR 0xEF, CHR 0xB8, CHR 0x8F]),
         (''default'', default_icon)]
        (case template of None \<Rightarrow> ''null'' | Some t \<Rightarrow> t) of
        Some i \<Rightarrow> i
      | None \<Rightarrow> default_icon)"

definition getTemplateFields :: "string \<Rightarrow> (string \<times> string) list" where
  "getTemplateFields template =
     (case map_of
        [(''npc'', map (\<lambda>k. (k, [])) [''Role'', ''Species'', ''Alignment'', ''Age'', ''Personality'',
            ''Appearance'', ''Motivations'', ''Secrets'']),
         (''location'', map (\<lambda>k. (k, [])) [''Type'', ''Region'', ''Climate'', ''Population'', ''Ruler'',
            ''Notable Features'']),
         (''item'', map (\<lambda>k. (k, [])) [''Type'', ''Rarity'', ''Attunement'', ''Value'', ''Weight'',
            ''Properties'']),
         (''quest'', [(''Status'', ''Active''), (''Level'', []), (''Giver'', []), (''Reward'', []),
            (''Location'', []), (''Objective'', [])]),
         (''monster'', map (\<lambda>k. (k, [])) [''CR'', ''AC'', ''HP'', ''Speed'', ''Abilities'',
            ''Weaknesses'', ''Resistances'']),
         (''faction'', map (\<lambda>k. (k, [])) [''Type'', ''Alignment'', ''Leader'', ''Headquarters'',
            ''Goals'', ''Notable Members''])]
        template of
        Some fs \<Rightarrow> fs
      | None \<Rightarrow> [])"

text \<open>
  \<^verbatim>\<open>createNode\<close>; \<open>newId\<close> is the value of \<^verbatim>\<open>generateId()\<close> and \<open>now\<close> that of
  \<^verbatim>\<open>Date.now()\<close>.
\<close>

definition createNode :: "string \<Rightarrow> int \<Rightarrow> createArgs \<Rightarrow> store \<Rightarrow> (node \<times> store) option" where
  "createNode newId now args s =
     (let siblings = getChildren (nodes s) (arg_parentId args);
          n = \<lparr>node_id = newId, parentId = arg_parentId args, node_type = arg_type args,
               name = arg_name args, orderIndex = int (length siblings),
               active = arg_active args, createdAt = now, updatedAt = now\<rparr>;
          s1 = s\<lparr>db := db_saveNode n (db s), nodes := AList.update newId n (nodes s)\<rparr>;
          s2 = (if falsy (arg_parentId args) then s1\<lparr>rootNodes := rootNodes s1 @ [newId]\<rparr> else s1);
          s3 = (if arg_type args = Leaf then
                  (let c = (getDefaultContent now newId)
                         \<lparr>content_icon := (if falsy (arg_icon args) then getDefaultIcon (arg_template args)
                                           else the (arg_icon args))\<rparr>;
                       c' = (if falsy (arg_template args) then c
                             else c\<lparr>content_fields := getTemplateFields (the (arg_template args))\<rparr>)
                   in s2\<lparr>db := db_saveContent c' (db s2)\<rparr>)
                else s2)
      in map_option (\<lambda>s4. (n, emit NodesChanged (emit (NodeCreated n) s4))) (buildSearchIndex s3))"

text \<open>The \<^verbatim>\<open>updates\<close> object of \<^verbatim>\<open>updateNode\<close>: \<open>None\<close> for a field it does not carry.\<close>

record updates =
  upd_id :: "string option"
  upd_parentId :: "string option option"
  upd_type :: "node_type option"
  upd_name :: "string option"
  upd_orderIndex :: "int option"
  upd_active :: "bool option"
  upd_createdAt :: "int option"

definition merge_updates :: "node \<Rightarrow> updates \<Rightarrow> int \<Rightarrow> node" where
  "merge_updates n u now =
     \<lparr>node_id = (case upd_id u of None \<Rightarrow> node_id n | Some v \<Rightarrow> v),
      parentId = (case upd_parentId u of None \<Rightarrow> parentId n | Some v \<Rightarrow> v),
      node_type = (case upd_type u of None \<Rightarrow> node_type n | Some v \<Rightarrow> v),
      name = (case upd_name u of None \<Rightarrow> name n | Some v \<Rightarrow> v),
      orderIndex = (case upd_orderIndex u of None \<Rightarrow> orderIndex n | Some v \<Rightarrow> v),
      active = (case upd_active u of None \<Rightarrow> active n | Some v \<Rightarrow> v),
      createdAt = (case upd_createdAt u of None \<Rightarrow> createdAt n | Some v \<Rightarrow> v),
      updatedAt = now\<rparr>"

text \<open>\<^verbatim>\<open>updateNode\<close> returns the updated node, or \<^verbatim>\<open>null\<close> (\<open>None\<close>) for an unknown id.\<close>

definition updateNode :: "int \<Rightarrow> string \<Rightarrow> updates \<Rightarrow> store \<Rightarrow> (node option \<times> store) option" where
  "updateNode now k u s =
     (case map_of (nodes s) k of
        None \<Rightarrow> Some (None, s)
      | Some n \<Rightarrow>
          (let updated = merge_updates n u now;
               s1 = s\<lparr>db := db_saveNode updated (db s), nodes := AList.update k updated (nodes s)\<rparr>
           in map_option (\<lambda>s2. (Some updated, emit (NodeUpdated updated) s2))
                (if upd_name u \<noteq> None then buildSearchIndex s1 else Some s1)))"

subsection \<open>Deleting\<close>

text \<open>What \<^verbatim>\<open>deleteNode\<close> does for a node once its children are deleted.\<close>

definition deleteNode_self :: "string \<Rightarrow> node \<Rightarrow> store \<Rightarrow> store option" where
  "deleteNode_self k n s =
     (let s1 = s\<lparr>db := db_deleteNode k (db s), nodes := AList.delete k (nodes s)\<rparr>;
          s2 = (if falsy (parentId n) then s1\<lparr>rootNodes := filter (\<lambda>r. r \<noteq> k) (rootNodes s1)\<rparr> else s1);
          s3 = (if selectedNodeId s2 = Some k
                then emit (SelectionChanged None) (s2\<lparr>selectedNodeId := None, currentContent := None\<rparr>)
                else s2)
      in map_option (\<lambda>s4. emit NodesChanged (emit (NodeDeleted k) s4)) (buildSearchIndex s3))"

text \<open>
  \<^verbatim>\<open>deleteNode\<close> calls itself on every child before it removes the node, with no bound on
  the depth: \<open>Inl k\<close> is the call \<^verbatim>\<open>deleteNode(k)\<close>, \<open>Inr children\<close> is the rest of the
  \<^verbatim>\<open>for (const child of children)\<close> loop, and \<open>None\<close> is a recursion that never ends.
\<close>

partial_function (option) deleteNode_rec :: "string + node list \<Rightarrow> store \<Rightarrow> store option" where
  "deleteNode_rec t s =
     (case t of
        Inl k \<Rightarrow>
          (case map_of (nodes s) k of
             None \<Rightarrow> Some s
           | Some n \<Rightarrow>
               Option.bind (deleteNode_rec (Inr (getChildren (nodes s) (Some k))) s)
                 (\<lambda>s1. deleteNode_self k n s1))
      | Inr children \<Rightarrow>
          (case children of
             [] \<Rightarrow> Some s
           | child # rest \<Rightarrow>
               Option.bind (deleteNode_rec (Inl (node_id child)) s)
                 (\<lambda>s1. deleteNode_rec (Inr rest) s1)))"

declare deleteNode_rec.simps [code]

definition deleteNode :: "string \<Rightarrow> store \<Rightarrow> store option" where
  "deleteNode k s = deleteNode_rec (Inl k) s"

subsection \<open>Moving and reordering\<close>

text \<open>
  \<^verbatim>\<open>moveNode\<close> throws \<^verbatim>\<open>Error('Cannot move a node into its own descendant')\<close>, the
  \<open>CycleError\<close> of the design, before it writes anything.
\<close>

definition moveNode :: "int \<Rightarrow> string \<Rightarrow> string option \<Rightarrow> store \<Rightarrow> ((error + unit) \<times> store) option" where
  "moveNode now k newParentId s =
     (case map_of (nodes s) k of
        None \<Rightarrow> Some (Inr (), s)
      | Some n \<Rightarrow>
          (case isDescendant (nodes s) newParentId k of
             None \<Rightarrow> None
           | Some True \<Rightarrow> Some (Inl CycleError, s)
           | Some False \<Rightarrow>
               (let siblings = getChildren (nodes s) newParentId;
                    updated = n\<lparr>parentId := newParentId, orderIndex := int (length siblings),
                                updatedAt := now\<rparr>;
                    s1 = s\<lparr>db := db_saveNode updated (db s), nodes := AList.update k updated (nodes s)\<rparr>;
                    s2 = (if falsy (parentId n) then s1\<lparr>rootNodes := filter (\<lambda>r. r \<noteq> k) (rootNodes s1)\<rparr>
                          else s1);
                    s3 = (if falsy newParentId then s2\<lparr>rootNodes := rootNodes s2 @ [k]\<rparr> else s2)
                in case (if falsy newParentId then sortRootNodes (nodes s3) (rootNodes s3)
                         else Some (rootNodes s3)) of
                     None \<Rightarrow> Some (Inl TypeError, s3)
                   | Some roots \<Rightarrow>
                       map_option (\<lambda>s4. (Inr (), emit NodesChanged (emit (NodeMoved updated) s4)))
                         (buildSearchIndex (s3\<lparr>rootNodes := roots\<rparr>)))))"

text \<open>\<^verbatim>\<open>findIndex\<close> (\<open>-1\<close> when nothing matches) and \<^verbatim>\<open>splice(start, deleteCount, ...items)\<close>.\<close>

fun findIndex :: "('a \<Rightarrow> bool) \<Rightarrow> 'a list \<Rightarrow> int" where
  "findIndex P [] = - 1"
| "findIndex P (x # xs) =
     (if P x then 0 else (let i = findIndex P xs in if i = - 1 then - 1 else i + 1))"

definition splice :: "int \<Rightarrow> nat \<Rightarrow> 'a list \<Rightarrow> 'a list \<Rightarrow> 'a list" where
  "splice start deleteCount items xs =
     (let len = int (length xs);
          st = nat (if start < 0 then max (len + start) 0 else min start len)
      in take st xs @ items @ drop (st + deleteCount) xs)"

text \<open>
  The renumbering loop of \<^verbatim>\<open>reorderNode\<close>, from index \<open>i\<close> on. The array holds the node
  objects of the map itself, each stored under its own id, so the assignment to
  \<^verbatim>\<open>sibling.orderIndex\<close> and the \<^verbatim>\<open>nodes.set(sibling.id, sibling)\<close> after it are one
  update of the map.
\<close>

fun renumber :: "int \<Rightarrow> node list \<Rightarrow> int \<Rightarrow> store \<Rightarrow> store" where
  "renumber now [] i s = s"
| "renumber now (sibling # rest) i s =
     (if orderIndex sibling \<noteq> i then
        (let sibling' = sibling\<lparr>orderIndex := i, updatedAt := now\<rparr>
         in renumber now rest (i + 1)
              (s\<lparr>db := db_saveNode sibling' (db s),
                 nodes := AList.update (node_id sibling') sibling' (nodes s)\<rparr>))
      else renumber now rest (i + 1) s)"

definition reorderNode :: "int \<Rightarrow> string \<Rightarrow> int \<Rightarrow> store \<Rightarrow> store" where
  "reorderNode now k newIndex s =
     (case map_of (nodes s) k of
        None \<Rightarrow> s
      | Some n \<Rightarrow>
          (let siblings = getChildren (nodes s) (parentId n);
               oldIndex = findIndex (\<lambda>m. node_id m = k) siblings
           in if oldIndex = - 1 \<or> oldIndex = newIndex then s
              else emit NodesChanged
                     (renumber now (splice newIndex 0 [n] (splice oldIndex 1 [] siblings)) 0 s)))"

subsection \<open>Export and import\<close>



section \<open>Acyclic parent chains\<close>

text \<open>
  One step of a parent walk, on ids: \<open>x\<close> names a node whose \<^verbatim>\<open>parentId\<close> is the truthy
  id \<open>y\<close> of a node of the map. The store is acyclic when no id is reachable from itself
  by one or more such steps.
\<close>

definition parent_step :: "node_map \<Rightarrow> (string \<times> string) set" where
  "parent_step ns =
     {(x, y). \<exists>n. map_of ns x = Some n \<and> parentId n = Some y \<and> y \<noteq> [] \<and> map_of ns y \<noteq> None}"

definition acyclic_nodes :: "node_map \<Rightarrow> bool" where
  "acyclic_nodes ns = (\<forall>x. (x, x) \<notin> (parent_step ns)\<^sup>+)"

text \<open>
  An executable test of acyclicity: from every key of the map, the parent walk ends within
  as many steps as the map has entries.
\<close>

fun walk_ends :: "nat \<Rightarrow> node_map \<Rightarrow> string \<Rightarrow> bool" where
  "walk_ends 0 ns x = False"
| "walk_ends (Suc k) ns x =
     (case map_of ns x of
        None \<Rightarrow> True
      | Some n \<Rightarrow>
          (case parentNode ns n of
             None \<Rightarrow> True
           | Some m \<Rightarrow> walk_ends k ns (the (parentId n))))"

definition acyclic_check :: "node_map \<Rightarrow> bool" where
  "acyclic_check ns = list_all (\<lambda>x. walk_ends (Suc (length ns)) ns x) (map fst ns)"

section \<open>Example vault\<close>

text \<open>
  A small vault in the shape of the seed data of \<^verbatim>\<open>app.js\<close>: two root folders, a
  folder chain under each, and leaves at the bottom.
\<close>

definition example_node :: "string \<Rightarrow> string option \<Rightarrow> node_type \<Rightarrow> string \<Rightarrow> int \<Rightarrow> node" where
  "example_node k p t nm i =
     \<lparr>node_id = k, parentId = p, node_type = t, name = nm, orderIndex = i, active = False,
      createdAt = 0, updatedAt = 0\<rparr>"

definition example_nodes :: node_map where
  "example_nodes =
     [(''n1'', example_node ''n1'' None Folder ''NPCs'' 0),
      (''n2'', example_node ''n2'' (Some ''n1'') Folder ''Trolls'' 0),
      (''n3'', example_node ''n3'' (Some ''n2'') Leaf ''Grahda'' 0),
      (''n4'', example_node ''n4'' None Folder ''Locations'' 1),
      (''n5'', example_node ''n5'' (Some ''n4'') Folder ''Swamps'' 0),
      (''n6'', example_node ''n6'' (Some ''n5'') Folder ''Emerald Mire'' 0),
      (''n7'', example_node ''n7'' (Some ''n6'') Leaf ''Bog Hut'' 0)]"

text \<open>Two folders that are each other's parent, as an imported file can hold them.\<close>

definition cyclic_nodes :: node_map where
  "cyclic_nodes =
     [(''a'', example_node ''a'' (Some ''b'') Folder ''A'' 0),
      (''b'', example_node ''b'' (Some ''a'') Folder ''B'' 0)]"

definition example_store :: store where
  "example_store =
     \<lparr>nodes = example_nodes, rootNodes = [''n1'', ''n4''], expandedNodes = [],
      selectedNodeId = None, currentContent = None, searchIndex = [], emitted = [],
      db = \<lparr>db_nodes = example_nodes,
             db_content = [(''n3'', getDefaultContent 0 ''n3''), (''n7'', getDefaultContent 0 ''n7'')]\<rparr>\<rparr>"

text \<open>The example vault after \<^verbatim>\<open>buildSearchIndex()\<close>.\<close>

definition example_indexed :: store where
  "example_indexed = (case buildSearchIndex example_store of Some s \<Rightarrow> s | None \<Rightarrow> example_store)"

text \<open>What a caller shows of a search: each result's node name, score and path.\<close>

definition search_summary :: "store \<Rightarrow> string \<Rightarrow> int \<Rightarrow> (string option \<times> int \<times> string) list option" where
  "search_summary s query limit =
     map_option (map (\<lambda>r. (map_option name (result_node r), result_score r,
                            join '' > '' (map name (result_path r)))))
       (search s query limit)"

section \<open>Stores that a reload lists in another order\<close>



section \<open>Sequences of moves\<close>

text \<open>
  The node that \<^verbatim>\<open>moveNode\<close> writes for a node \<open>n\<close> moved under \<open>p\<close>, and a run of
  \<^verbatim>\<open>moveNode\<close> calls (time, id, new parent), one after the other: a call that throws leaves
  the state it has reached and the next call goes on from there.
\<close>

definition moved_node :: "node \<Rightarrow> string option \<Rightarrow> node_map \<Rightarrow> int \<Rightarrow> node" where
  "moved_node n p ns now =
     n\<lparr>parentId := p, orderIndex := int (length (getChildren ns p)), updatedAt := now\<rparr>"

fun moveNodes :: "(int \<times> string \<times> string option) list \<Rightarrow> store \<Rightarrow> store option" where
  "moveNodes [] s = Some s"
| "moveNodes ((now, k, newParentId) # calls) s =
     (case moveNode now k newParentId s of
        None \<Rightarrow> None
      | Some (r, s') \<Rightarrow> moveNodes calls s')"

definition returns_normally :: "((error + unit) \<times> store) option \<Rightarrow> bool" where
  "returns_normally r = (case r of Some (Inr u, s') \<Rightarrow> True | _ \<Rightarrow> False)"

section \<open>Parents that are folders\<close>

text \<open>
  A parent reference is in order when it is falsy (the root level) or names a folder of
  the map; the map is in order when the \<^verbatim>\<open>parentId\<close> of every node is. A run of
  \<^verbatim>\<open>createNode\<close> and \<^verbatim>\<open>moveNode\<close> calls targets folders when, at the time of each call,
  the parent argument is in order (and the id generated for a created node is new).
\<close>

datatype call = Create string int createArgs | Move int string "string option"

definition folder_or_root :: "node_map \<Rightarrow> string option \<Rightarrow> bool" where
  "folder_or_root ns p =
     (falsy p \<or> (case map_of ns (the p) of Some f \<Rightarrow> node_type f = Folder | None \<Rightarrow> False))"

definition parents_are_folders :: "node_map \<Rightarrow> bool" where
  "parents_are_folders ns = list_all (\<lambda>n. folder_or_root ns (parentId n)) (map snd ns)"

fun run_call :: "call \<Rightarrow> store \<Rightarrow> store option" where
  "run_call (Create newId now args) s = map_option snd (createNode newId now args s)"
| "run_call (Move now k newParentId) s = map_option snd (moveNode now k newParentId s)"

fun run_calls :: "call list \<Rightarrow> store \<Rightarrow> store option" where
  "run_calls [] s = Some s"
| "run_calls (c # calls) s =
     (case run_call c s of None \<Rightarrow> None | Some s' \<Rightarrow> run_calls calls s')"

fun call_targets_folder :: "call \<Rightarrow> store \<Rightarrow> bool" where
  "call_targets_folder (Create newId now args) s =
     (map_of (nodes s) newId = None \<and> folder_or_root (nodes s) (arg_parentId args))"
| "call_targets_folder (Move now k newParentId) s = folder_or_root (nodes s) newParentId"

fun calls_target_folders :: "call list \<Rightarrow> store \<Rightarrow> bool" where
  "calls_target_folders [] s = True"
| "calls_target_folders (c # calls) s =
     (call_targets_folder c s \<and>
      (case run_call c s of None \<Rightarrow> True | Some s' \<Rightarrow> calls_target_folders calls s'))"

section \<open>Well-formed database and store\<close>



text \<open>
  What a \<^verbatim>\<open>Map\<close> filled by \<^verbatim>\<open>nodes.set(node.id, node)\<close> is: one entry per key, each
  node under its own id.
\<close>

definition store_wf :: "node_map \<Rightarrow> bool" where
  "store_wf ns = (distinct (map fst ns) \<and> list_all (\<lambda>(k, n). node_id n = k) ns)"

section \<open>Cascading deletion\<close>

text \<open>
  \<open>(c, p) \<in> child_of ns\<close>: the node \<open>c\<close> has the node \<open>p\<close> as its \<^verbatim>\<open>parentId\<close>, which is how
  \<^verbatim>\<open>getChildren\<close> finds the children that \<^verbatim>\<open>deleteNode\<close> deletes first. A state \<open>s'\<close> is
  what a cascade leaves of \<open>s\<close> when the surviving nodes are unchanged, the children of
  every removed node are removed with it, and what is removed from the map is removed from
  both object stores of the database, which only shrink.
\<close>

definition child_of :: "node_map \<Rightarrow> (string \<times> string) set" where
  "child_of ns =
     {(c, p). \<exists>n. map_of ns c = Some n \<and> parentId n = Some p \<and> map_of ns p \<noteq> None}"

definition cascaded :: "store \<Rightarrow> store \<Rightarrow> bool" where
  "cascaded s s' =
     (store_wf (nodes s') \<and>
      (\<forall>k n. map_of (nodes s') k = Some n \<longrightarrow> map_of (nodes s) k = Some n) \<and>
      (\<forall>k n p. map_of (nodes s) k = Some n \<and> parentId n = Some p \<and> map_of (nodes s) p \<noteq> None \<and>
          map_of (nodes s') p = None \<longrightarrow> map_of (nodes s') k = None) \<and>
      (\<forall>k. map_of (nodes s) k \<noteq> None \<and> map_of (nodes s') k = None \<longrightarrow>
          map_of (db_nodes (db s')) k = None \<and> map_of (db_content (db s')) k = None) \<and>
      (\<forall>k. map_of (db_nodes (db s)) k = None \<longrightarrow> map_of (db_nodes (db s')) k = None) \<and>
      (\<forall>k. map_of (db_content (db s)) k = None \<longrightarrow> map_of (db_content (db s')) k = None))"

definition targets_gone :: "string + node list \<Rightarrow> store \<Rightarrow> bool" where
  "targets_gone t s' =
     (case t of
        Inl k \<Rightarrow> map_of (nodes s') k = None
      | Inr children \<Rightarrow> \<forall>c \<in> set children. map_of (nodes s') (node_id c) = None)"

section \<open>Sibling order\<close>

text \<open>
  A sibling group is contiguous when the \<^verbatim>\<open>orderIndex\<close> values of the children of a parent,
  as \<^verbatim>\<open>getChildren\<close> sorts them, are \<open>0, 1, \<dots>, n - 1\<close>. \<open>renumbered\<close> is the array of
  \<^verbatim>\<open>reorderNode\<close> after its renumbering loop.
\<close>

definition contiguous :: "node_map \<Rightarrow> string option \<Rightarrow> bool" where
  "contiguous ns p =
     (map orderIndex (getChildren ns p) = map int [0..<length (getChildren ns p)])"

fun renumbered :: "int \<Rightarrow> node list \<Rightarrow> int \<Rightarrow> node list" where
  "renumbered now [] i = []"
| "renumbered now (m # rest) i =
     (if orderIndex m \<noteq> i then m\<lparr>orderIndex := i, updatedAt := now\<rparr> else m)
     # renumbered now rest (i + 1)"

section \<open>The scoring rule in the words of the design\<close>


section \<open>Termination of the parent walks\<close>

lemma parent_step_finite: "finite (parent_step ns)"
proof -
  have "parent_step ns \<subseteq> fst ` set ns \<times> fst ` set ns"
    by (auto simp: parent_step_def dest!: map_of_SomeD intro: rev_image_eqI)
  then show ?thesis by (rule finite_subset) simp
qed

lemma parent_step_wf: "acyclic_nodes ns \<Longrightarrow> wf ((parent_step ns)\<inverse>)"
  by (rule finite_acyclic_wf_converse[OF parent_step_finite])
     (simp add: acyclic_nodes_def acyclic_def)

lemma parent_step_iff:
  "(x, y) \<in> parent_step ns \<longleftrightarrow>
   (\<exists>n m. map_of ns x = Some n \<and> parentNode ns n = Some m \<and> parentId n = Some y)"
  by (cases "map_of ns x") (auto simp: parent_step_def parentNode_def)

lemma parentNode_cases:
  "parentNode ns c = None \<or>
   (\<exists>y c'. parentId c = Some y \<and> y \<noteq> [] \<and> map_of ns y = Some c' \<and> parentNode ns c = Some c')"
  by (cases "parentId c") (auto simp: parentNode_def)

lemma getNodePath_loop_returns:
  assumes "acyclic_nodes ns"
  shows "\<exists>r. getNodePath_loop ns (map_of ns x) path = Some r"
proof -
  have "\<forall>path. \<exists>r. getNodePath_loop ns (map_of ns x) path = Some r"
  proof (induction x rule: wf_induct_rule[OF parent_step_wf[OF assms]])
    case (1 x)
    show ?case
    proof
      fix path
      show "\<exists>r. getNodePath_loop ns (map_of ns x) path = Some r"
      proof (cases "map_of ns x")
        case None
        then show ?thesis by (simp add: getNodePath_loop.simps)
      next
        case (Some c)
        from parentNode_cases[of ns c] show ?thesis
        proof
          assume "parentNode ns c = None"
          with Some show ?thesis
            by (subst getNodePath_loop.simps) (simp add: getNodePath_loop.simps)
        next
          assume "\<exists>y c'. parentId c = Some y \<and> y \<noteq> [] \<and> map_of ns y = Some c' \<and>
                    parentNode ns c = Some c'"
          then obtain y c' where y: "parentId c = Some y" "y \<noteq> []" "map_of ns y = Some c'"
            "parentNode ns c = Some c'" by blast
          with Some have "(x, y) \<in> parent_step ns" by (auto simp: parent_step_def)
          then have "(y, x) \<in> (parent_step ns)\<inverse>" by simp
          from 1[OF this] obtain r where "getNodePath_loop ns (map_of ns y) (c # path) = Some r"
            by blast
          with Some y show ?thesis
            by (subst getNodePath_loop.simps) simp
        qed
      qed
    qed
  qed
  then show ?thesis by blast
qed

lemma getNodePath_returns: "acyclic_nodes ns \<Longrightarrow> \<exists>path. getNodePath ns k = Some path"
  unfolding getNodePath_def by (rule getNodePath_loop_returns)

lemma isDescendant_easy:
  "p = None \<or> p = Some [] \<or> p = Some a \<or> map_of ns (the p) = None \<Longrightarrow>
   \<exists>b. isDescendant ns p a = Some b"
  by (subst isDescendant.simps) auto

lemma isDescendant_returns_Some:
  assumes "acyclic_nodes ns"
  shows "\<exists>b. isDescendant ns (Some x) a = Some b"
proof (induction x rule: wf_induct_rule[OF parent_step_wf[OF assms]])
  case (1 x)
  show ?case
  proof (cases "x = a \<or> x = [] \<or> map_of ns x = None")
    case True
    then show ?thesis using isDescendant_easy[of "Some x" a ns] by auto
  next
    case False
    then obtain n where n: "x \<noteq> a" "x \<noteq> []" "map_of ns x = Some n" by auto
    have step: "isDescendant ns (Some x) a = isDescendant ns (parentId n) a"
      using n by (subst isDescendant.simps) simp
    show ?thesis
    proof (cases "parentId n = None \<or> parentId n = Some [] \<or> parentId n = Some a \<or>
                  map_of ns (the (parentId n)) = None")
      case True
      then show ?thesis using isDescendant_easy[of "parentId n" a ns] step by simp
    next
      case False
      then obtain y where y: "parentId n = Some y" "y \<noteq> []" "map_of ns y \<noteq> None" by auto
      with n have "(y, x) \<in> (parent_step ns)\<inverse>" by (auto simp: parent_step_def)
      from 1[OF this] show ?thesis using step y by simp
    qed
  qed
qed

lemma isDescendant_returns: "acyclic_nodes ns \<Longrightarrow> \<exists>b. isDescendant ns p a = Some b"
  by (cases p) (auto intro: isDescendant_easy isDescendant_returns_Some)

lemma cycle_never_ends: "(x, x) \<in> (parent_step ns)\<^sup>+ \<Longrightarrow> \<not> walk_ends k ns x"
proof (induction k arbitrary: x)
  case 0
  show ?case by simp
next
  case (Suc k)
  from Suc.prems obtain y where y: "(x, y) \<in> parent_step ns" "(y, x) \<in> (parent_step ns)\<^sup>*"
    by (auto dest: tranclD)
  then have "(y, y) \<in> (parent_step ns)\<^sup>+" by (meson rtrancl_into_trancl1)
  then have "\<not> walk_ends k ns y" by (rule Suc.IH)
  with y(1) show ?case by (auto simp: parent_step_iff)
qed

lemma acyclic_check_sound: "acyclic_check ns \<Longrightarrow> acyclic_nodes ns"
  unfolding acyclic_nodes_def
proof (intro allI notI)
  fix x assume c: "acyclic_check ns" and cyc: "(x, x) \<in> (parent_step ns)\<^sup>+"
  from cyc obtain y where "(x, y) \<in> parent_step ns" by (auto dest: tranclD)
  then have "x \<in> fst ` set ns"
    by (auto simp: parent_step_def dest!: map_of_SomeD intro: rev_image_eqI)
  with c have "walk_ends (Suc (length ns)) ns x" by (auto simp: acyclic_check_def list_all_iff)
  with cycle_never_ends[OF cyc] show False by blast
qed

lemma example_nodes_acyclic: "acyclic_nodes example_nodes"
  by (rule acyclic_check_sound) code_simp

lemma cycle_step:
  assumes "(x, x) \<in> (parent_step ns)\<^sup>+"
  shows "\<exists>c y. map_of ns x = Some c \<and> parentNode ns c = map_of ns y \<and> (y, y) \<in> (parent_step ns)\<^sup>+"
proof -
  from assms obtain y where y: "(x, y) \<in> parent_step ns" "(y, x) \<in> (parent_step ns)\<^sup>*"
    by (auto dest: tranclD)
  then have "(y, y) \<in> (parent_step ns)\<^sup>+" by (meson rtrancl_into_trancl1)
  moreover from y(1) obtain c where "map_of ns x = Some c" "parentId c = Some y" "y \<noteq> []"
    by (auto simp: parent_step_def)
  moreover from this have "parentNode ns c = map_of ns y" by (simp add: parentNode_def)
  ultimately show ?thesis by blast
qed

lemma loop_on_cycle_never_returns:
  assumes "getNodePath_loop ns cur path = Some r"
  shows "\<not> (\<exists>x. cur = map_of ns x \<and> (x, x) \<in> (parent_step ns)\<^sup>+)"
proof (rule getNodePath_loop.raw_induct[where
      P = "\<lambda>ns cur path r. \<not> (\<exists>x. cur = map_of ns x \<and> (x, x) \<in> (parent_step ns)\<^sup>+)", OF _ assms])
  fix loop ns cur path r
  assume IH: "\<And>ns cur path r. loop ns cur path = Some r \<Longrightarrow>
                \<not> (\<exists>x. cur = map_of ns x \<and> (x, x) \<in> (parent_step ns)\<^sup>+)"
    and body: "(case cur of None \<Rightarrow> Some path
                | Some c \<Rightarrow> loop ns (parentNode ns c) (c # path)) = Some r"
  show "\<not> (\<exists>x. cur = map_of ns x \<and> (x, x) \<in> (parent_step ns)\<^sup>+)"
  proof
    assume "\<exists>x. cur = map_of ns x \<and> (x, x) \<in> (parent_step ns)\<^sup>+"
    then obtain x where x: "cur = map_of ns x" "(x, x) \<in> (parent_step ns)\<^sup>+" by blast
    from cycle_step[OF x(2)] obtain c y where c: "map_of ns x = Some c"
      "parentNode ns c = map_of ns y" "(y, y) \<in> (parent_step ns)\<^sup>+" by blast
    with body x(1) have "loop ns (map_of ns y) (c # path) = Some r" by simp
    from IH[OF this] c(3) show False by blast
  qed
qed

lemma getNodePath_diverges_on_cycle:
  "(x, x) \<in> (parent_step ns)\<^sup>+ \<Longrightarrow> getNodePath ns x = None"
proof (cases "getNodePath ns x")
  case None
  then show ?thesis .
next
  case (Some r)
  assume c: "(x, x) \<in> (parent_step ns)\<^sup>+"
  from Some have "getNodePath_loop ns (map_of ns x) [] = Some r" by (simp add: getNodePath_def)
  from loop_on_cycle_never_returns[OF this] c show ?thesis by blast
qed

lemma cyclic_not_acyclic: "\<not> acyclic_nodes cyclic_nodes"
proof -
  have "(''a'', ''b'') \<in> parent_step cyclic_nodes" "(''b'', ''a'') \<in> parent_step cyclic_nodes"
    by (simp_all add: parent_step_def cyclic_nodes_def example_node_def)
  then have "(''a'', ''a'') \<in> (parent_step cyclic_nodes)\<^sup>+" by (rule trancl_into_trancl2[OF _ r_into_trancl])
  then show ?thesis by (auto simp: acyclic_nodes_def)
qed

text \<open>
  C10: in a store whose parent chains are acyclic (no id is reachable from itself by
  repeated \<^verbatim>\<open>parentId\<close> steps), \<^verbatim>\<open>getNodePath(id)\<close> and
  \<^verbatim>\<open>isDescendant(candidateId, ancestorId)\<close> return, for every id, candidate and ancestor.
  Neither walk keeps a visited set or a depth bound, and acyclicity is what ends them: in a
  store that is not acyclic, \<^verbatim>\<open>getNodePath\<close> does not return for some id.
\<close>

theorem parent_walks_terminate:
  "(acyclic_nodes ns \<longrightarrow>
      (\<exists>path. getNodePath ns nodeId = Some path) \<and>
      (\<exists>b. isDescendant ns candidateId ancestorId = Some b)) \<and>
   (\<not> acyclic_nodes ns \<longrightarrow> (\<exists>k. getNodePath ns k = None))"
  using getNodePath_diverges_on_cycle[of _ ns]
  by (auto simp: getNodePath_returns isDescendant_returns acyclic_nodes_def)

theorem parent_walks_terminate_witness:
  "acyclic_nodes example_nodes \<and>
   (\<exists>path. getNodePath example_nodes ''n7'' = Some path) \<and>
   (\<exists>b. isDescendant example_nodes (Some ''n7'') ''n4'' = Some b) \<and>
   \<not> acyclic_nodes cyclic_nodes \<and> (\<exists>k. getNodePath cyclic_nodes k = None)"
  using parent_walks_terminate[of example_nodes "''n7''" "Some ''n7''" "''n4''"]
    parent_walks_terminate[of cyclic_nodes]
    example_nodes_acyclic cyclic_not_acyclic
  by simp

section \<open>Unknown ids\<close>

text \<open>
  C8: for an id that is not in the node map, \<^verbatim>\<open>updateNode\<close> returns \<^verbatim>\<open>null\<close>, and
  \<^verbatim>\<open>deleteNode\<close> and \<^verbatim>\<open>moveNode\<close> return without an error; all three leave the whole
  state as it was: node map, root list, selection, search index, emitted events and the
  database.
\<close>

theorem unknown_id_is_noop:
  "map_of (nodes s) k = None \<Longrightarrow>
   updateNode now k u s = Some (None, s) \<and>
   deleteNode k s = Some s \<and>
   moveNode now k p s = Some (Inr (), s)"
  by (simp add: updateNode_def deleteNode_def moveNode_def deleteNode_rec.simps)

theorem unknown_id_is_noop_witness:
  "map_of (nodes example_store) ''zz'' = None \<and>
   updateNode 1 ''zz''
     \<lparr>upd_id = None, upd_parentId = None, upd_type = None, upd_name = Some ''x'',
      upd_orderIndex = None, upd_active = None, upd_createdAt = None\<rparr> example_store =
     Some (None, example_store) \<and>
   deleteNode ''zz'' example_store = Some example_store \<and>
   moveNode 1 ''zz'' (Some ''n1'') example_store = Some (Inr (), example_store)"
proof -
  have h: "map_of (nodes example_store) ''zz'' = None"
    by (simp add: example_store_def example_nodes_def)
  from unknown_id_is_noop[OF h] h show ?thesis by simp
qed

section \<open>Search\<close>













text \<open>
  C6, as the code scores it: in the example vault, with Grahda at path
  ``NPCs > Trolls > Grahda'' and Emerald Mire at ``Locations > Swamps > Emerald Mire'',
  \<^verbatim>\<open>search("grahda")\<close> returns Grahda first with score 110 (100 for the name and 10
  for the path, which ends with the name), and \<^verbatim>\<open>search("em")\<close> returns Emerald Mire with
  score 60 (prefix 50 and path 10), ahead of Bog Hut, which matches in its path only and
  scores 10.
\<close>

theorem search_example_scores:
  "search_summary example_indexed ''grahda'' 20 =
     Some [(Some ''Grahda'', 110, ''NPCs > Trolls > Grahda'')] \<and>
   search_summary example_indexed ''em'' 20 =
     Some [(Some ''Emerald Mire'', 60, ''Locations > Swamps > Emerald Mire''),
           (Some ''Bog Hut'', 10, ''Locations > Swamps > Emerald Mire > Bog Hut'')]"
  by code_simp

text \<open>The first result for ``grahda'' does not carry the score 100.\<close>

theorem search_example_score_100_counterexample:
  "search_summary example_indexed ''grahda'' 1 \<noteq>
     Some [(Some ''Grahda'', 100, ''NPCs > Trolls > Grahda'')] \<and>
   search_summary example_indexed ''em'' 1 \<noteq>
     Some [(Some ''Emerald Mire'', 50, ''Locations > Swamps > Emerald Mire'')]"
  by code_simp

section \<open>Moving nodes\<close>

lemma buildSearchIndex_Some:
  "buildSearchIndex s = Some s' \<Longrightarrow> \<exists>idx. s' = s\<lparr>searchIndex := idx\<rparr>"
  by (auto simp: buildSearchIndex_def)

lemma index_nodes_returns:
  "acyclic_nodes ns \<Longrightarrow> \<exists>r. index_nodes ns xs idx = Some r"
proof (induction xs arbitrary: idx)
  case Nil
  then show ?case by simp
next
  case (Cons n xs)
  from getNodePath_returns[OF Cons.prems, of "node_id n"] obtain path where "getNodePath ns (node_id n) = Some path" by blast
  with Cons show ?case by simp
qed

lemma buildSearchIndex_returns:
  "acyclic_nodes (nodes s) \<Longrightarrow> \<exists>idx. buildSearchIndex s = Some (s\<lparr>searchIndex := idx\<rparr>)"
  using index_nodes_returns[of "nodes s" "map snd (nodes s)" "[]"]
  by (auto simp: buildSearchIndex_def)

lemma moveNode_result:
  assumes "map_of (nodes s) k = Some n" and "moveNode now k p s = Some (r, s')"
  shows "(isDescendant (nodes s) p k = Some True \<and> r = Inl CycleError \<and> s' = s) \<or>
         (isDescendant (nodes s) p k = Some False \<and>
          nodes s' = AList.update k (moved_node n p (nodes s) now) (nodes s) \<and>
          db s' = db_saveNode (moved_node n p (nodes s) now) (db s))"
proof (cases "isDescendant (nodes s) p k")
  case None
  with assms show ?thesis by (simp add: moveNode_def)
next
  case (Some d)
  show ?thesis
  proof (cases d)
    case True
    with Some assms show ?thesis by (simp add: moveNode_def)
  next
    case False
    with Some assms show ?thesis
      by (auto simp: moveNode_def Let_def moved_node_def emit_def split: option.splits if_splits dest!: buildSearchIndex_Some)
  qed
qed

lemma reaches_isDescendant:
  "(q, a) \<in> (parent_step ns)\<^sup>* \<Longrightarrow> q \<noteq> [] \<Longrightarrow> isDescendant ns (Some q) a = Some True"
proof (induction rule: converse_rtrancl_induct)
  case base
  show ?case by (subst isDescendant.simps) simp
next
  case (step q y)
  from step.hyps(1) obtain n where n: "map_of ns q = Some n" "parentId n = Some y" "y \<noteq> []"
    by (auto simp: parent_step_def)
  show ?case
  proof (cases "q = a")
    case True
    then show ?thesis by (subst isDescendant.simps) simp
  next
    case False
    with n step.prems step.IH show ?thesis by (subst isDescendant.simps) simp
  qed
qed

lemma parent_step_update:
  assumes "map_of ns k = Some n"
  shows "parent_step (AList.update k (n\<lparr>parentId := p, orderIndex := i, updatedAt := t\<rparr>) ns) \<subseteq>
         (case p of None \<Rightarrow> parent_step ns | Some q \<Rightarrow> if q = [] then parent_step ns else insert (k, q) (parent_step ns))"
  using assms by (auto simp: parent_step_def update_conv' split: option.splits if_splits)

lemma acyclic_update:
  assumes ac: "acyclic_nodes ns" and n: "map_of ns k = Some n"
    and d: "isDescendant ns p k = Some False"
  shows "acyclic_nodes (AList.update k (n\<lparr>parentId := p, orderIndex := i, updatedAt := t\<rparr>) ns)"
proof -
  let ?ns' = "AList.update k (n\<lparr>parentId := p, orderIndex := i, updatedAt := t\<rparr>) ns"
  have a: "acyclic (parent_step ns)" using ac by (simp add: acyclic_nodes_def acyclic_def)
  have "acyclic (case p of None \<Rightarrow> parent_step ns | Some q \<Rightarrow> if q = [] then parent_step ns else insert (k, q) (parent_step ns))"
  proof (cases p)
    case None
    with a show ?thesis by simp
  next
    case (Some q)
    show ?thesis
    proof (cases "q = []")
      case True
      with Some a show ?thesis by simp
    next
      case False
      have "(q, k) \<notin> (parent_step ns)\<^sup>*"
        using reaches_isDescendant[of q k ns] d False Some by auto
      with a Some False show ?thesis by (simp add: acyclic_insert)
    qed
  qed
  then have "acyclic (parent_step ?ns')" by (rule acyclic_subset[OF _ parent_step_update[OF n]])
  then show ?thesis by (simp add: acyclic_nodes_def acyclic_def)
qed

lemma returns_normallyD: "returns_normally r \<Longrightarrow> \<exists>s'. r = Some (Inr (), s')"
  by (auto simp: returns_normally_def split: option.splits sum.splits)

lemma buildSearchIndex_NoneD: "buildSearchIndex t = None \<Longrightarrow> \<not> acyclic_nodes (nodes t)"
  using buildSearchIndex_returns[of t] by auto

lemma moveNode_returns:
  assumes "acyclic_nodes (nodes s)"
  shows "\<exists>r s'. moveNode now k p s = Some (r, s')"
proof (cases "map_of (nodes s) k")
  case None
  then show ?thesis by (simp add: moveNode_def)
next
  case (Some n)
  from isDescendant_returns[OF assms, of p k] obtain d where d: "isDescendant (nodes s) p k = Some d" by blast
  show ?thesis
  proof (cases d)
    case True
    with Some d show ?thesis by (simp add: moveNode_def)
  next
    case False
    with d have d': "isDescendant (nodes s) p k = Some False" by simp
    have bsi: "\<exists>z. buildSearchIndex t = Some z"
      if "nodes t = AList.update k (n\<lparr>parentId := p,
             orderIndex := int (length (getChildren (nodes s) p)), updatedAt := now\<rparr>) (nodes s)" for t
      using buildSearchIndex_returns[of t] acyclic_update[OF assms Some d'] that by auto
    show ?thesis using Some d'
      by (auto simp: moveNode_def Let_def split: option.splits intro!: bsi)
  qed
qed

lemma moveNode_acyclic:
  assumes "acyclic_nodes (nodes s)" and "moveNode now k p s = Some (r, s')"
  shows "acyclic_nodes (nodes s')"
proof (cases "map_of (nodes s) k")
  case None
  with assms show ?thesis by (simp add: moveNode_def)
next
  case (Some n)
  from moveNode_result[OF Some assms(2)] show ?thesis
    using assms(1) acyclic_update[OF assms(1) Some] by (auto simp: moved_node_def)
qed

lemma moveNodes_acyclic:
  "acyclic_nodes (nodes s) \<Longrightarrow> \<exists>s'. moveNodes calls s = Some s' \<and> acyclic_nodes (nodes s')"
proof (induction calls arbitrary: s)
  case Nil
  then show ?case by simp
next
  case (Cons c calls)
  obtain now k p where c: "c = (now, k, p)" by (cases c)
  from moveNode_returns[OF Cons.prems, of now k p] obtain r s1 where m: "moveNode now k p s = Some (r, s1)" by blast
  from moveNode_acyclic[OF Cons.prems m] have "acyclic_nodes (nodes s1)" .
  from Cons.IH[OF this] m c show ?case by simp
qed

lemma example_store_nodes: "nodes example_store = example_nodes" by (simp add: example_store_def)

text \<open>
  C1: \<^verbatim>\<open>moveNode(A, P)\<close> for a node \<open>A\<close> of the map, with \<open>P\<close> equal to \<open>A\<close> or a
  descendant of \<open>A\<close> (\<open>A\<close> is reached from \<open>P\<close> by one or more parent steps; the empty
  string is falsy, so as a new parent it means the root level and names no node), throws
  the cycle error and returns the state unchanged: node map, root list and database. And
  from a store with acyclic parent chains, every sequence of \<^verbatim>\<open>moveNode\<close> calls returns
  and leaves the parent chains acyclic: no id is reachable from itself.
\<close>

theorem moveNode_rejects_cycles:
  "(map_of (nodes s) a \<noteq> None \<and>
      (p = Some a \<or> (\<exists>q. p = Some q \<and> q \<noteq> [] \<and> (q, a) \<in> (parent_step (nodes s))\<^sup>+)) \<longrightarrow>
      moveNode now a p s = Some (Inl CycleError, s)) \<and>
   (acyclic_nodes (nodes s) \<longrightarrow>
      (\<exists>s'. moveNodes calls s = Some s' \<and> acyclic_nodes (nodes s')))"
proof (intro conjI impI)
  assume h: "map_of (nodes s) a \<noteq> None \<and>
      (p = Some a \<or> (\<exists>q. p = Some q \<and> q \<noteq> [] \<and> (q, a) \<in> (parent_step (nodes s))\<^sup>+))"
  then obtain n where n: "map_of (nodes s) a = Some n" by auto
  have "isDescendant (nodes s) p a = Some True"
  proof (cases "p = Some a")
    case True
    then show ?thesis by (subst isDescendant.simps) simp
  next
    case False
    with h obtain q where "p = Some q" "q \<noteq> []" "(q, a) \<in> (parent_step (nodes s))\<^sup>+" by auto
    then show ?thesis using reaches_isDescendant[of q a "nodes s"] by (simp add: trancl_into_rtrancl)
  qed
  with n show "moveNode now a p s = Some (Inl CycleError, s)" by (simp add: moveNode_def)
next
  assume "acyclic_nodes (nodes s)"
  then show "\<exists>s'. moveNodes calls s = Some s' \<and> acyclic_nodes (nodes s')" by (rule moveNodes_acyclic)
qed

theorem moveNode_rejects_cycles_witness:
  "map_of (nodes example_store) ''n1'' \<noteq> None \<and>
   (''n3'', ''n1'') \<in> (parent_step (nodes example_store))\<^sup>+ \<and>
   moveNode 5 ''n1'' (Some ''n3'') example_store = Some (Inl CycleError, example_store) \<and>
   moveNode 5 ''n1'' (Some ''n1'') example_store = Some (Inl CycleError, example_store) \<and>
   acyclic_nodes (nodes example_store) \<and>
   (\<exists>s'. moveNodes [(6, ''n3'', Some ''n5''), (7, ''n4'', Some ''n3''), (8, ''n2'', None)] example_store = Some s' \<and>
      acyclic_nodes (nodes s'))"
proof -
  have p: "map_of (nodes example_store) ''n1'' \<noteq> None" by (simp add: example_store_nodes example_nodes_def)
  have e1: "(''n3'', ''n2'') \<in> parent_step (nodes example_store)"
    by (simp add: parent_step_def example_store_nodes example_nodes_def example_node_def)
  have e2: "(''n2'', ''n1'') \<in> parent_step (nodes example_store)"
    by (simp add: parent_step_def example_store_nodes example_nodes_def example_node_def)
  from e1 e2 have r: "(''n3'', ''n1'') \<in> (parent_step (nodes example_store))\<^sup>+" by (rule trancl_into_trancl2[OF _ r_into_trancl])
  have a: "acyclic_nodes (nodes example_store)" by (simp add: example_store_nodes example_nodes_acyclic)
  from moveNode_rejects_cycles[of example_store "''n1''" "Some ''n3''" 5] p r 
  have m1: "moveNode 5 ''n1'' (Some ''n3'') example_store = Some (Inl CycleError, example_store)" by blast
  from moveNode_rejects_cycles[of example_store "''n1''" "Some ''n1''" 5] p 
  have m2: "moveNode 5 ''n1'' (Some ''n1'') example_store = Some (Inl CycleError, example_store)" by blast
  from moveNode_rejects_cycles[of example_store _ _ _ "[(6, ''n3'', Some ''n5''), (7, ''n4'', Some ''n3''), (8, ''n2'', None)]"] a
  have m3: "\<exists>s'. moveNodes [(6, ''n3'', Some ''n5''), (7, ''n4'', Some ''n3''), (8, ''n2'', None)] example_store = Some s' \<and>
      acyclic_nodes (nodes s')" by blast
  from p r m1 m2 a m3 show ?thesis by blast
qed

section \<open>Where a moved node lands\<close>

lemma update_values_subset:
  "set (map snd (AList.update k v al)) \<subseteq> insert v (set (map snd al))"
  by (induction al) auto



section \<open>Parents stay folders when callers target folders\<close>

lemma createNode_result:
  assumes "createNode newId now args s = Some (n, s')"
  shows "nodes s' = AList.update newId n (nodes s) \<and> parentId n = arg_parentId args \<and> node_type n = arg_type args \<and> node_id n = newId"
  using assms
  by (auto simp: createNode_def Let_def emit_def split: if_splits dest!: buildSearchIndex_Some)

lemma createNode_returns:
  assumes "acyclic_nodes (AList.update newId
      \<lparr>node_id = newId, parentId = arg_parentId args, node_type = arg_type args,
               name = arg_name args, orderIndex = int (length (getChildren (nodes s) (arg_parentId args))),
               active = arg_active args, createdAt = now, updatedAt = now\<rparr> (nodes s))"
  shows "\<exists>n s'. createNode newId now args s = Some (n, s')"
proof -
  have bsi: "\<exists>z. buildSearchIndex t = Some z"
    if "nodes t = AList.update newId
      \<lparr>node_id = newId, parentId = arg_parentId args, node_type = arg_type args,
               name = arg_name args, orderIndex = int (length (getChildren (nodes s) (arg_parentId args))),
               active = arg_active args, createdAt = now, updatedAt = now\<rparr> (nodes s)" for t
    using buildSearchIndex_returns[of t] assms that by auto
  show ?thesis
    by (auto simp: createNode_def Let_def intro!: bsi)
qed

lemma folder_or_root_update:
  assumes "folder_or_root ns p" and "\<And>f. map_of ns k = Some f \<Longrightarrow> node_type v = node_type f"
    and "map_of ns k = None \<Longrightarrow> p \<noteq> Some k"
  shows "folder_or_root (AList.update k v ns) p"
  using assms by (cases p) (auto simp: folder_or_root_def update_conv' split: option.splits)

lemma parents_update:
  assumes "parents_are_folders ns" and "folder_or_root ns (parentId v)"
    and "\<And>f. map_of ns k = Some f \<Longrightarrow> node_type v = node_type f"
  shows "parents_are_folders (AList.update k v ns)"
proof -
  have nk: "p \<noteq> Some k" if "map_of ns k = None" "folder_or_root ns p" "\<not> falsy p" for p
    using that by (cases p) (auto simp: folder_or_root_def)
  have "folder_or_root (AList.update k v ns) (parentId m)" if "m \<in> set (map snd (AList.update k v ns))" for m
  proof -
    from that update_values_subset[of k v ns] have "m = v \<or> m \<in> set (map snd ns)" by auto
    then have f: "folder_or_root ns (parentId m)" using assms(1,2) by (auto simp: parents_are_folders_def list_all_iff)
    show ?thesis
    proof (cases "falsy (parentId m)")
      case True
      then show ?thesis by (simp add: folder_or_root_def)
    next
      case False
      show ?thesis by (rule folder_or_root_update[OF f assms(3)]) (use nk[OF _ f False] in auto)
    qed
  qed
  then show ?thesis by (auto simp: parents_are_folders_def list_all_iff)
qed

lemma no_step_into_absent: "map_of ns k = None \<Longrightarrow> (q, k) \<in> (parent_step ns)\<^sup>* \<Longrightarrow> q = k"
  by (erule rtranclE) (auto simp: parent_step_def)

lemma acyclic_create:
  assumes ac: "acyclic_nodes ns" and fresh: "map_of ns k = None" and pf: "parents_are_folders ns"
    and par: "parentId v = p" "folder_or_root ns p"
  shows "acyclic_nodes (AList.update k v ns)"
proof -
  have a: "acyclic (parent_step ns)" using ac by (simp add: acyclic_nodes_def acyclic_def)
  have dangling: "parentId m \<noteq> Some k \<or> k = []" if "map_of ns x = Some m" for x m
  proof -
    from that have "m \<in> set (map snd ns)" by (auto dest!: map_of_SomeD intro: rev_image_eqI)
    with pf have "folder_or_root ns (parentId m)" by (auto simp: parents_are_folders_def list_all_iff)
    with fresh show ?thesis by (cases "parentId m") (auto simp: folder_or_root_def)
  qed
  have sub: "parent_step (AList.update k v ns) \<subseteq>
      (case p of None \<Rightarrow> parent_step ns | Some q \<Rightarrow> if q = [] \<or> q = k then parent_step ns else insert (k, q) (parent_step ns))"
    using par fresh dangling
    by (auto simp: parent_step_def update_conv' folder_or_root_def split: option.splits if_splits)
  have "acyclic (case p of None \<Rightarrow> parent_step ns | Some q \<Rightarrow> if q = [] \<or> q = k then parent_step ns else insert (k, q) (parent_step ns))"
  proof (cases p)
    case None
    with a show ?thesis by simp
  next
    case (Some q)
    show ?thesis
    proof (cases "q = [] \<or> q = k")
      case True
      with Some a show ?thesis by auto
    next
      case False
      then have "(q, k) \<notin> (parent_step ns)\<^sup>*" using no_step_into_absent[OF fresh, of q] by auto
      with a Some False show ?thesis by (simp add: acyclic_insert)
    qed
  qed
  then have "acyclic (parent_step (AList.update k v ns))" by (rule acyclic_subset[OF _ sub])
  then show ?thesis by (simp add: acyclic_nodes_def acyclic_def)
qed

lemma run_call_preserves:
  assumes ac: "acyclic_nodes (nodes s)" and pf: "parents_are_folders (nodes s)" and ok: "call_targets_folder c s"
  shows "\<exists>s'. run_call c s = Some s' \<and> acyclic_nodes (nodes s') \<and> parents_are_folders (nodes s')"
proof (cases c)
  case (Create newId now args)
  let ?n = "\<lparr>node_id = newId, parentId = arg_parentId args, node_type = arg_type args,
               name = arg_name args, orderIndex = int (length (getChildren (nodes s) (arg_parentId args))),
               active = arg_active args, createdAt = now, updatedAt = now\<rparr>"
  from ok Create have fresh: "map_of (nodes s) newId = None" and par: "folder_or_root (nodes s) (arg_parentId args)" by auto
  have ac': "acyclic_nodes (AList.update newId ?n (nodes s))"
    by (rule acyclic_create[OF ac fresh pf _ par]) simp
  from createNode_returns[OF ac'] obtain n s' where c: "createNode newId now args s = Some (n, s')" by blast
  from createNode_result[OF c] have ns': "nodes s' = AList.update newId n (nodes s)" and pn: "parentId n = arg_parentId args" by auto
  have "acyclic_nodes (nodes s')" unfolding ns' by (rule acyclic_create[OF ac fresh pf pn par])
  moreover have "parents_are_folders (nodes s')" unfolding ns'
    by (rule parents_update[OF pf]) (use par pn fresh in auto)
  ultimately show ?thesis using c Create by simp
next
  case (Move now k p)
  from moveNode_returns[OF ac, of now k p] obtain r s' where m: "moveNode now k p s = Some (r, s')" by blast
  have a': "acyclic_nodes (nodes s')" by (rule moveNode_acyclic[OF ac m])
  have "parents_are_folders (nodes s')"
  proof (cases "map_of (nodes s) k")
    case None
    with m pf show ?thesis by (simp add: moveNode_def)
  next
    case (Some n)
    from moveNode_result[OF Some m] show ?thesis
    proof
      assume "isDescendant (nodes s) p k = Some True \<and> r = Inl CycleError \<and> s' = s"
      with pf show ?thesis by simp
    next
      assume "isDescendant (nodes s) p k = Some False \<and>
          nodes s' = AList.update k (moved_node n p (nodes s) now) (nodes s) \<and>
          db s' = db_saveNode (moved_node n p (nodes s) now) (db s)"
      then have ns': "nodes s' = AList.update k (moved_node n p (nodes s) now) (nodes s)" by simp
      show ?thesis unfolding ns'
        by (rule parents_update[OF pf]) (use ok Move Some in \<open>auto simp: moved_node_def\<close>)
    qed
  qed
  with a' m Move show ?thesis by simp
qed

lemma run_calls_preserve:
  "acyclic_nodes (nodes s) \<Longrightarrow> parents_are_folders (nodes s) \<Longrightarrow> calls_target_folders calls s \<Longrightarrow>
   \<exists>s'. run_calls calls s = Some s' \<and> acyclic_nodes (nodes s') \<and> parents_are_folders (nodes s')"
proof (induction calls arbitrary: s)
  case Nil
  then show ?case by simp
next
  case (Cons c calls)
  from Cons.prems(3) have ok: "call_targets_folder c s" by simp
  from run_call_preserves[OF Cons.prems(1,2) ok] obtain s1 where
    s1: "run_call c s = Some s1" "acyclic_nodes (nodes s1)" "parents_are_folders (nodes s1)"
    by blast
  with Cons.prems(3) have "calls_target_folders calls s1" by simp
  from Cons.IH[OF s1(2,3) this] s1(1) show ?case by simp
qed

text \<open>
  C9, as the code has it: the store checks neither the type nor the existence of the
  target, so the invariant rests on the callers. On a well-formed store (acyclic, every
  truthy \<^verbatim>\<open>parentId\<close> naming a folder of the map), a sequence of \<^verbatim>\<open>createNode\<close> and
  \<^verbatim>\<open>moveNode\<close> calls whose parent argument is, at each call, falsy or the id of an existing
  folder returns and leaves every truthy \<^verbatim>\<open>parentId\<close> naming an existing folder. A
  \<^verbatim>\<open>moveNode\<close> that returns normally stores the new parent it was given, whatever that
  names.
\<close>

theorem parents_stay_folders_when_calls_target_folders:
  "(acyclic_nodes (nodes s) \<and> parents_are_folders (nodes s) \<and> calls_target_folders calls s \<longrightarrow>
      (\<exists>s'. run_calls calls s = Some s' \<and> parents_are_folders (nodes s'))) \<and>
   (map_of (nodes s) k \<noteq> None \<and> moveNode now k p s = Some (Inr (), s1) \<longrightarrow>
      map_option parentId (map_of (nodes s1) k) = Some p)"
proof (intro conjI impI)
  assume "acyclic_nodes (nodes s) \<and> parents_are_folders (nodes s) \<and> calls_target_folders calls s"
  then show "\<exists>s'. run_calls calls s = Some s' \<and> parents_are_folders (nodes s')"
    using run_calls_preserve[of s calls] by blast
next
  assume a: "map_of (nodes s) k \<noteq> None \<and> moveNode now k p s = Some (Inr (), s1)"
  then obtain n where n: "map_of (nodes s) k = Some n" by auto
  from moveNode_result[OF n] a
  have "nodes s1 = AList.update k (moved_node n p (nodes s) now) (nodes s)" by auto
  then show "map_option parentId (map_of (nodes s1) k) = Some p"
    by (simp add: update_conv' moved_node_def)
qed

theorem parents_stay_folders_witness:
  "acyclic_nodes (nodes example_store) \<and> parents_are_folders (nodes example_store) \<and>
   calls_target_folders
     [Create ''n8'' 3 \<lparr>arg_name = ''Mossback'', arg_type = Leaf, arg_parentId = Some ''n2'',
        arg_template = Some ''npc'', arg_icon = None, arg_active = False\<rparr>,
      Move 4 ''n3'' (Some ''n5'')] example_store \<and>
   (\<exists>s'. run_calls
       [Create ''n8'' 3 \<lparr>arg_name = ''Mossback'', arg_type = Leaf, arg_parentId = Some ''n2'',
          arg_template = Some ''npc'', arg_icon = None, arg_active = False\<rparr>,
        Move 4 ''n3'' (Some ''n5'')] example_store = Some s' \<and>
      parents_are_folders (nodes s')) \<and>
   map_of (nodes example_store) ''n3'' \<noteq> None \<and>
   (\<exists>s1. moveNode 4 ''n3'' (Some ''n5'') example_store = Some (Inr (), s1) \<and>
      map_option parentId (map_of (nodes s1) ''n3'') = Some (Some ''n5''))"
proof -
  let ?calls = "[Create ''n8'' 3 \<lparr>arg_name = ''Mossback'', arg_type = Leaf,
        arg_parentId = Some ''n2'', arg_template = Some ''npc'', arg_icon = None,
        arg_active = False\<rparr>, Move 4 ''n3'' (Some ''n5'')]"
  have a: "acyclic_nodes (nodes example_store)"
    by (simp add: example_store_nodes example_nodes_acyclic)
  have f: "parents_are_folders (nodes example_store)" by code_simp
  have c: "calls_target_folders ?calls example_store" by code_simp
  have n: "map_of (nodes example_store) ''n3'' \<noteq> None"
    by (simp add: example_store_nodes example_nodes_def)
  have "returns_normally (moveNode 4 ''n3'' (Some ''n5'') example_store)" by code_simp
  then obtain s1 where m: "moveNode 4 ''n3'' (Some ''n5'') example_store = Some (Inr (), s1)"
    by (auto dest: returns_normallyD)
  from parents_stay_folders_when_calls_target_folders[of example_store ?calls "''n3''" 4
      "Some ''n5''" s1] a f c n m
  show ?thesis by simp
qed

text \<open>
  Moving the folder Swamps under the leaf Grahda, or under an id that names no node,
  returns normally and leaves Swamps the child of a leaf, or of nothing.
\<close>

theorem moveNode_into_leaf_counterexample:
  "map_option (\<lambda>(r, s'). (r, map_option parentId (map_of (nodes s') ''n5''),
                              map_option node_type (map_of (nodes s') ''n3'')))
     (moveNode 9 ''n5'' (Some ''n3'') example_store) =
     Some (Inr (), Some (Some ''n3''), Some Leaf) \<and>
   map_option (\<lambda>(r, s'). (r, map_option parentId (map_of (nodes s') ''n5''),
                              map_of (nodes s') ''gone''))
     (moveNode 9 ''n5'' (Some ''gone'') example_store) =
     Some (Inr (), Some (Some ''gone''), None)"
  by code_simp

section \<open>Export and import\<close>



lemma update_append: "k \<notin> set (map fst acc) \<Longrightarrow> AList.update k v acc = acc @ [(k, v)]"
  by (induction acc) auto



















section \<open>Cascading deletion removes the whole subtree\<close>

lemma cascaded_refl: "store_wf (nodes s) \<Longrightarrow> cascaded s s"
  unfolding cascaded_def by (intro conjI allI impI; (elim conjE)?; simp)

lemma cascadedI:
  assumes "store_wf (nodes s')"
    and "\<And>k n. map_of (nodes s') k = Some n \<Longrightarrow> map_of (nodes s) k = Some n"
    and "\<And>k n p. map_of (nodes s) k = Some n \<Longrightarrow> parentId n = Some p \<Longrightarrow>
           map_of (nodes s) p \<noteq> None \<Longrightarrow> map_of (nodes s') p = None \<Longrightarrow>
           map_of (nodes s') k = None"
    and "\<And>k. map_of (nodes s) k \<noteq> None \<Longrightarrow> map_of (nodes s') k = None \<Longrightarrow>
           map_of (db_nodes (db s')) k = None \<and> map_of (db_content (db s')) k = None"
    and "\<And>k. map_of (db_nodes (db s)) k = None \<Longrightarrow> map_of (db_nodes (db s')) k = None"
    and "\<And>k. map_of (db_content (db s)) k = None \<Longrightarrow> map_of (db_content (db s')) k = None"
  shows "cascaded s s'"
  unfolding cascaded_def using assms by blast

lemma cascaded_wf: "cascaded s s' \<Longrightarrow> store_wf (nodes s')"
  by (simp add: cascaded_def)

lemma cascaded_sub: "cascaded s s' \<Longrightarrow> map_of (nodes s') k = Some n \<Longrightarrow> map_of (nodes s) k = Some n"
  unfolding cascaded_def by blast

lemma cascaded_closed:
  "cascaded s s' \<Longrightarrow> map_of (nodes s) k = Some n \<Longrightarrow> parentId n = Some p \<Longrightarrow>
   map_of (nodes s) p \<noteq> None \<Longrightarrow> map_of (nodes s') p = None \<Longrightarrow> map_of (nodes s') k = None"
  unfolding cascaded_def by blast

lemma cascaded_db:
  "cascaded s s' \<Longrightarrow> map_of (nodes s) k \<noteq> None \<Longrightarrow> map_of (nodes s') k = None \<Longrightarrow>
   map_of (db_nodes (db s')) k = None \<and> map_of (db_content (db s')) k = None"
  unfolding cascaded_def by blast

lemma cascaded_db_nodes_mono:
  "cascaded s s' \<Longrightarrow> map_of (db_nodes (db s)) k = None \<Longrightarrow> map_of (db_nodes (db s')) k = None"
  unfolding cascaded_def by blast

lemma cascaded_db_content_mono:
  "cascaded s s' \<Longrightarrow> map_of (db_content (db s)) k = None \<Longrightarrow> map_of (db_content (db s')) k = None"
  unfolding cascaded_def by blast

lemma cascaded_keeps_gone: "cascaded s1 s2 \<Longrightarrow> map_of (nodes s1) k = None \<Longrightarrow> map_of (nodes s2) k = None"
  by (cases "map_of (nodes s2) k") (auto dest: cascaded_sub)

lemma cascaded_trans:
  assumes "cascaded s s1" and "cascaded s1 s2"
  shows "cascaded s s2"
proof (rule cascadedI)
  show "store_wf (nodes s2)" using assms(2) by (rule cascaded_wf)
next
  fix k n assume "map_of (nodes s2) k = Some n"
  then show "map_of (nodes s) k = Some n" using assms by (auto dest: cascaded_sub)
next
  fix k n p
  assume a: "map_of (nodes s) k = Some n" "parentId n = Some p" "map_of (nodes s) p \<noteq> None"
    "map_of (nodes s2) p = None"
  show "map_of (nodes s2) k = None"
  proof (cases "map_of (nodes s1) k")
    case None
    then show ?thesis by (rule cascaded_keeps_gone[OF assms(2)])
  next
    case (Some n1)
    with assms(1) a have n1: "map_of (nodes s1) k = Some n" by (auto dest: cascaded_sub)
    show ?thesis
    proof (cases "map_of (nodes s1) p")
      case None
      from cascaded_closed[OF assms(1) a(1,2,3) None] n1 show ?thesis by simp
    next
      case (Some q)
      from cascaded_closed[OF assms(2) n1 a(2) _ a(4)] Some show ?thesis by simp
    qed
  qed
next
  fix k assume a: "map_of (nodes s) k \<noteq> None" "map_of (nodes s2) k = None"
  show "map_of (db_nodes (db s2)) k = None \<and> map_of (db_content (db s2)) k = None"
  proof (cases "map_of (nodes s1) k")
    case None
    from cascaded_db[OF assms(1) a(1) None]
    show ?thesis
      using cascaded_db_nodes_mono[OF assms(2)] cascaded_db_content_mono[OF assms(2)] by simp
  next
    case (Some n1)
    then have "map_of (nodes s1) k \<noteq> None" by simp
    from cascaded_db[OF assms(2) this a(2)] show ?thesis .
  qed
next
  fix k assume "map_of (db_nodes (db s)) k = None"
  then show "map_of (db_nodes (db s2)) k = None"
    using cascaded_db_nodes_mono[OF assms(1)] cascaded_db_nodes_mono[OF assms(2)] by simp
next
  fix k assume "map_of (db_content (db s)) k = None"
  then show "map_of (db_content (db s2)) k = None"
    using cascaded_db_content_mono[OF assms(1)] cascaded_db_content_mono[OF assms(2)] by simp
qed

lemma deleteNode_self_result:
  "deleteNode_self k n s = Some s' \<Longrightarrow>
   nodes s' = AList.delete k (nodes s) \<and> db s' = db_deleteNode k (db s)"
  by (auto simp: deleteNode_self_def Let_def emit_def split: if_splits dest!: buildSearchIndex_Some)

lemma store_wf_delete: "store_wf ns \<Longrightarrow> store_wf (AList.delete k ns)"
proof -
  assume w: "store_wf ns"
  then have "distinct (map fst (AList.delete k ns))" by (simp add: store_wf_def distinct_delete)
  moreover have "set (AList.delete k ns) \<subseteq> set ns" by (auto simp: AList.delete_eq)
  ultimately show ?thesis using w by (auto simp: store_wf_def list_all_iff)
qed

lemma getChildren_iff:
  "store_wf ns \<Longrightarrow> n \<in> set (getChildren ns p) \<longleftrightarrow> (map_of ns (node_id n) = Some n \<and> parentId n = p)"
  by (force simp: getChildren_def store_wf_def list_all_iff dest: map_of_SomeD)

lemma cascaded_self:
  assumes wf: "store_wf (nodes s)" and c: "cascaded s s1"
    and gone: "\<forall>c \<in> set (getChildren (nodes s) (Some k)). map_of (nodes s1) (node_id c) = None"
    and self: "deleteNode_self k n s1 = Some s2"
  shows "cascaded s s2 \<and> map_of (nodes s2) k = None"
proof -
  from deleteNode_self_result[OF self] have n2: "nodes s2 = AList.delete k (nodes s1)"
    and d2: "db s2 = db_deleteNode k (db s1)" by auto
  have m2: "map_of (nodes s2) j = (if j = k then None else map_of (nodes s1) j)" for j
    by (simp add: n2 delete_conv')
  have dn: "map_of (db_nodes (db s2)) j = (if j = k then None else map_of (db_nodes (db s1)) j)" for j
    by (simp add: d2 db_deleteNode_def delete_conv')
  have dc: "map_of (db_content (db s2)) j = (if j = k then None else map_of (db_content (db s1)) j)" for j
    by (simp add: d2 db_deleteNode_def delete_conv')
  from c have wf1: "store_wf (nodes s1)" by (rule cascaded_wf)
  have "cascaded s s2"
  proof (rule cascadedI)
    show "store_wf (nodes s2)" unfolding n2 by (rule store_wf_delete[OF wf1])
  next
    fix j m assume "map_of (nodes s2) j = Some m"
    then show "map_of (nodes s) j = Some m"
      using cascaded_sub[OF c, of j m] by (auto simp: m2 split: if_splits)
  next
    fix j m p
    assume a: "map_of (nodes s) j = Some m" "parentId m = Some p" "map_of (nodes s) p \<noteq> None"
      "map_of (nodes s2) p = None"
    show "map_of (nodes s2) j = None"
    proof (cases "p = k")
      case True
      from a(1) wf have "node_id m = j" by (auto simp: store_wf_def list_all_iff dest: map_of_SomeD)
      with a True wf have "m \<in> set (getChildren (nodes s) (Some k))" by (simp add: getChildren_iff)
      with gone \<open>node_id m = j\<close> have "map_of (nodes s1) j = None" by auto
      then show ?thesis by (simp add: m2)
    next
      case False
      with a(4) have "map_of (nodes s1) p = None" by (simp add: m2)
      from cascaded_closed[OF c a(1,2,3) this] show ?thesis by (simp add: m2)
    qed
  next
    fix j assume a: "map_of (nodes s) j \<noteq> None" "map_of (nodes s2) j = None"
    show "map_of (db_nodes (db s2)) j = None \<and> map_of (db_content (db s2)) j = None"
    proof (cases "j = k")
      case True
      then show ?thesis by (simp add: dn dc)
    next
      case False
      with a(2) have "map_of (nodes s1) j = None" by (simp add: m2)
      from cascaded_db[OF c a(1) this] show ?thesis by (simp add: dn dc)
    qed
  next
    fix j assume "map_of (db_nodes (db s)) j = None"
    then show "map_of (db_nodes (db s2)) j = None"
      using cascaded_db_nodes_mono[OF c, of j] by (simp add: dn)
  next
    fix j assume "map_of (db_content (db s)) j = None"
    then show "map_of (db_content (db s2)) j = None"
      using cascaded_db_content_mono[OF c, of j] by (simp add: dc)
  qed
  then show ?thesis by (simp add: m2)
qed

lemma deleteNode_rec_cascades:
  assumes "deleteNode_rec t s = Some s'"
  shows "store_wf (nodes s) \<longrightarrow> cascaded s s' \<and> targets_gone t s'"
proof (rule deleteNode_rec.raw_induct[where P = "\<lambda>t s s'. store_wf (nodes s) \<longrightarrow> cascaded s s' \<and> targets_gone t s'", OF _ assms])
  fix del t s s'
  assume IH: "\<And>t s s'. del t s = Some s' \<Longrightarrow> store_wf (nodes s) \<longrightarrow> cascaded s s' \<and> targets_gone t s'"
    and body: "(case t of
        Inl k \<Rightarrow>
          (case map_of (nodes s) k of
             None \<Rightarrow> Some s
           | Some n \<Rightarrow>
               Option.bind (del (Inr (getChildren (nodes s) (Some k))) s)
                 (\<lambda>s1. deleteNode_self k n s1))
      | Inr children \<Rightarrow>
          (case children of
             [] \<Rightarrow> Some s
           | child # rest \<Rightarrow>
               Option.bind (del (Inl (node_id child)) s)
                 (\<lambda>s1. del (Inr rest) s1))) = Some s'"
  show "store_wf (nodes s) \<longrightarrow> cascaded s s' \<and> targets_gone t s'"
  proof
    assume wf: "store_wf (nodes s)"
    show "cascaded s s' \<and> targets_gone t s'"
    proof (cases t)
      case (Inl k)
      show ?thesis
      proof (cases "map_of (nodes s) k")
        case None
        with body Inl have "s' = s" by simp
        with None Inl wf show ?thesis by (simp add: cascaded_refl targets_gone_def)
      next
        case (Some n)
        with body Inl obtain s1 where s1: "del (Inr (getChildren (nodes s) (Some k))) s = Some s1"
          and self: "deleteNode_self k n s1 = Some s'"
          by (auto simp: bind_eq_Some_conv)
        from IH[OF s1] wf have c1: "cascaded s s1"
          and g1: "\<forall>c \<in> set (getChildren (nodes s) (Some k)). map_of (nodes s1) (node_id c) = None"
          by (auto simp: targets_gone_def)
        from cascaded_self[OF wf c1 g1 self] Inl show ?thesis by (simp add: targets_gone_def)
      qed
    next
      case (Inr children)
      show ?thesis
      proof (cases children)
        case Nil
        with body Inr have "s' = s" by simp
        with Nil Inr wf show ?thesis by (simp add: cascaded_refl targets_gone_def)
      next
        case (Cons child rest)
        with body Inr obtain s1 where s1: "del (Inl (node_id child)) s = Some s1"
          and r: "del (Inr rest) s1 = Some s'"
          by (auto simp: bind_eq_Some_conv)
        from IH[OF s1] wf have c1: "cascaded s s1" and g1: "map_of (nodes s1) (node_id child) = None"
          by (auto simp: targets_gone_def)
        then have wf1: "store_wf (nodes s1)" by (simp add: cascaded_wf)
        from IH[OF r] wf1 have c2: "cascaded s1 s'"
          and g2: "\<forall>c \<in> set rest. map_of (nodes s') (node_id c) = None"
          by (auto simp: targets_gone_def)
        from cascaded_trans[OF c1 c2] cascaded_keeps_gone[OF c2 g1] g2 Inr Cons
        show ?thesis by (simp add: targets_gone_def)
      qed
    qed
  qed
qed

lemma descendants_gone:
  assumes "(d, f) \<in> (child_of (nodes s))\<^sup>*" and "cascaded s s'" and "map_of (nodes s') f = None"
  shows "map_of (nodes s') d = None"
  using assms(1)
proof (induction rule: converse_rtrancl_induct)
  case base
  show ?case by (rule assms(3))
next
  case (step d y)
  from step.hyps(1) obtain n where "map_of (nodes s) d = Some n" "parentId n = Some y" "map_of (nodes s) y \<noteq> None"
    by (auto simp: child_of_def)
  with step.IH cascaded_closed[OF assms(2), of d n y] show ?case by simp
qed

lemma descendants_deleted:
  assumes "store_wf (nodes s)" and "map_of (nodes s) f = Some n" and "deleteNode f s = Some s'"
    and "(d, f) \<in> (child_of (nodes s))\<^sup>*"
  shows "map_of (nodes s') d = None \<and> map_of (db_nodes (db s')) d = None \<and>
         map_of (db_content (db s')) d = None \<and>
         (\<forall>c \<in> set (getChildren (nodes s') (parentId n)). node_id c \<noteq> f)"
proof -
  from deleteNode_rec_cascades[OF assms(3)[unfolded deleteNode_def]] assms(1)
  have c: "cascaded s s'" and g: "map_of (nodes s') f = None" by (auto simp: targets_gone_def)
  from descendants_gone[OF assms(4) c g] have 1: "map_of (nodes s') d = None" .
  have "map_of (nodes s) d \<noteq> None"
    using assms(4,2) by (cases rule: converse_rtranclE) (auto simp: child_of_def)
  with 1 cascaded_db[OF c, of d]
  have 2: "map_of (db_nodes (db s')) d = None \<and> map_of (db_content (db s')) d = None" by simp
  from c have "store_wf (nodes s')" by (rule cascaded_wf)
  from getChildren_iff[OF this] g have "\<forall>c \<in> set (getChildren (nodes s') (parentId n)). node_id c \<noteq> f"
    by auto
  with 1 2 show ?thesis by simp
qed

lemma child_ofI: "map_of ns c = Some n \<Longrightarrow> parentId n = Some p \<Longrightarrow> map_of ns p \<noteq> None \<Longrightarrow> (c, p) \<in> child_of ns"
  by (auto simp: child_of_def)

text \<open>
  C4: when \<^verbatim>\<open>deleteNode(F)\<close> returns for a node \<open>F\<close> of a well-formed map, \<open>F\<close> and every
  descendant of \<open>F\<close> (every node that reaches \<open>F\<close> along \<^verbatim>\<open>parentId\<close>) are gone from the
  node map, so \<^verbatim>\<open>getNode\<close> finds none of them, and from the database, node record and
  content record alike; and \<^verbatim>\<open>getChildren\<close> of the former parent of \<open>F\<close> no longer lists
  \<open>F\<close>.
\<close>

theorem deleteNode_cascade_complete:
  assumes "store_wf (nodes s)" and "map_of (nodes s) f = Some n" and "deleteNode f s = Some s'"
    and "(d, f) \<in> (child_of (nodes s))\<^sup>*"
  shows "getNode s' d = None \<and> map_of (db_nodes (db s')) d = None \<and>
         map_of (db_content (db s')) d = None \<and>
         (\<forall>c \<in> set (getChildren (nodes s') (parentId n)). node_id c \<noteq> f)"
  using descendants_deleted[OF assms] by (simp add: getNode_def)

theorem deleteNode_cascade_complete_witness:
  "store_wf (nodes example_store) \<and>
   map_of (nodes example_store) ''n4'' = Some (example_node ''n4'' None Folder ''Locations'' 1) \<and>
   (''n7'', ''n4'') \<in> (child_of (nodes example_store))\<^sup>* \<and>
   (\<exists>s'. deleteNode ''n4'' example_store = Some s' \<and>
      getNode s' ''n7'' = None \<and> map_of (db_nodes (db s')) ''n7'' = None \<and>
      map_of (db_content (db s')) ''n7'' = None \<and>
      map node_id (getChildren (nodes s') None) = [''n1''])"
proof -
  have wf: "store_wf (nodes example_store)" by code_simp
  have m: "map_of (nodes example_store) ''n4'' = Some (example_node ''n4'' None Folder ''Locations'' 1)"
    by (simp add: example_store_nodes example_nodes_def)
  have e1: "(''n7'', ''n6'') \<in> child_of (nodes example_store)"
    by (rule child_ofI[where n = "example_node ''n7'' (Some ''n6'') Leaf ''Bog Hut'' 0"])
       (simp_all add: example_store_nodes example_nodes_def example_node_def)
  have e2: "(''n6'', ''n5'') \<in> child_of (nodes example_store)"
    by (rule child_ofI[where n = "example_node ''n6'' (Some ''n5'') Folder ''Emerald Mire'' 0"])
       (simp_all add: example_store_nodes example_nodes_def example_node_def)
  have e3: "(''n5'', ''n4'') \<in> child_of (nodes example_store)"
    by (rule child_ofI[where n = "example_node ''n5'' (Some ''n4'') Folder ''Swamps'' 0"])
       (simp_all add: example_store_nodes example_nodes_def example_node_def)
  from e1 e2 e3 have r: "(''n7'', ''n4'') \<in> (child_of (nodes example_store))\<^sup>*" by auto
  have "\<not> Option.is_none (deleteNode ''n4'' example_store)" by code_simp
  then obtain s' where d: "deleteNode ''n4'' example_store = Some s'" by (auto simp: Option.is_none_def)
  have g: "map_option (\<lambda>s'. map node_id (getChildren (nodes s') None)) (deleteNode ''n4'' example_store) = Some [''n1'']"
    by code_simp
  from deleteNode_cascade_complete[OF wf m d r] wf m r d g show ?thesis by auto
qed

section \<open>Contiguous sibling order\<close>

lemma sort_key_snoc_max:
  assumes "\<forall>x \<in> set xs. f x < f n"
  shows "sort_key f (xs @ [n]) = sort_key f xs @ [n]"
proof (rule properties_for_sort_key)
  show "mset (sort_key f xs @ [n]) = mset (xs @ [n])" by simp
  show "sorted (map f (sort_key f xs @ [n]))"
    using assms by (auto simp: sorted_append less_imp_le)
  fix k assume "k \<in> set (sort_key f xs @ [n])"
  have "filter (\<lambda>x. f k = f x) (sort_key f xs) = filter (\<lambda>x. f k = f x) xs"
    using sort_key_stable[of f "f k" xs] by (simp add: eq_commute)
  then show "filter (\<lambda>x. f k = f x) (sort_key f xs @ [n]) = filter (\<lambda>x. f k = f x) (xs @ [n])"
    by simp
qed

lemma contiguous_bound:
  assumes "contiguous ns p" and "m \<in> set (getChildren ns p)"
  shows "orderIndex m < int (length (getChildren ns p))"
proof -
  from assms(2) have "orderIndex m \<in> set (map orderIndex (getChildren ns p))" by simp
  with assms(1) show ?thesis by (auto simp: contiguous_def)
qed

lemma contiguous_create:
  assumes c: "contiguous ns p" and fresh: "map_of ns k = None"
    and n: "parentId n = p" "orderIndex n = int (length (getChildren ns p))"
  shows "contiguous (AList.update k n ns) p"
proof -
  from fresh have "k \<notin> set (map fst ns)" by (simp add: map_of_eq_None_iff)
  then have u: "AList.update k n ns = ns @ [(k, n)]" by (rule update_append)
  let ?xs = "filter (\<lambda>m. parentId m = p) (map snd ns)"
  have b: "\<forall>x \<in> set ?xs. orderIndex x < orderIndex n"
    using contiguous_bound[OF c] n(2) by (simp add: getChildren_def)
  have "getChildren (AList.update k n ns) p = sort_key orderIndex (?xs @ [n])"
    using n(1) by (simp add: u getChildren_def)
  also have "\<dots> = getChildren ns p @ [n]"
    using sort_key_snoc_max[OF b] by (simp add: getChildren_def)
  finally show ?thesis using c n(2) by (simp add: contiguous_def)
qed

lemma findIndex_found:
  "findIndex P xs \<noteq> - 1 \<Longrightarrow>
   0 \<le> findIndex P xs \<and> nat (findIndex P xs) < length xs \<and> P (xs ! nat (findIndex P xs))"
proof (induction xs)
  case Nil
  then show ?case by simp
next
  case (Cons x xs)
  show ?case
  proof (cases "P x")
    case True
    then show ?thesis by simp
  next
    case False
    with Cons.prems have ne: "findIndex P xs \<noteq> - 1" by (auto simp: Let_def split: if_splits)
    from Cons.IH[OF ne] False ne show ?thesis by (simp add: Let_def nat_add_distrib)
  qed
qed

lemma mset_remove_nth:
  "i < length xs \<Longrightarrow> mset (take i xs @ drop (Suc i) xs) + {#xs ! i#} = mset xs"
proof -
  assume "i < length xs"
  from id_take_nth_drop[OF this] have "mset xs = mset (take i xs @ xs ! i # drop (Suc i) xs)" by simp
  then show ?thesis by simp
qed

lemma mset_splice_insert: "mset (splice i 0 [x] ys) = mset ys + {#x#}"
proof -
  have "mset (take j ys @ [x] @ drop j ys) = mset ys + {#x#}" for j
    by (metis append_take_drop_id mset_append union_mset_add_mset_right add.right_neutral mset.simps(2) mset_append union_commute append.simps append_Nil)
  then show ?thesis by (simp add: splice_def Let_def)
qed

lemma mset_reposition:
  assumes "0 \<le> i" and "nat i < length xs"
  shows "mset (splice j 0 [xs ! nat i] (splice i 1 [] xs)) = mset xs"
proof -
  from assms have "splice i 1 [] xs = take (nat i) xs @ drop (Suc (nat i)) xs"
    by (simp add: splice_def Let_def min_def)
  with mset_remove_nth[OF assms(2)] show ?thesis by (simp add: mset_splice_insert)
qed

lemma store_wf_update: "store_wf ns \<Longrightarrow> node_id v = k \<Longrightarrow> store_wf (AList.update k v ns)"
proof -
  assume w: "store_wf ns" and v: "node_id v = k"
  have "set (AList.update k v ns) \<subseteq> insert (k, v) (set ns)" by (induction ns) auto
  with w v show ?thesis by (auto simp: store_wf_def distinct_update list_all_iff)
qed

lemma renumbered_fields:
  "map orderIndex (renumbered now sibs i) = map (\<lambda>j. i + int j) [0..<length sibs] \<and>
   map parentId (renumbered now sibs i) = map parentId sibs \<and>
   map node_id (renumbered now sibs i) = map node_id sibs"
proof (induction sibs arbitrary: i)
  case Nil
  show ?case by simp
next
  case (Cons m rest)
  have "[0..<length (m # rest)] = 0 # map Suc [0..<length rest]"
    by (simp add: upt_conv_Cons map_Suc_upt del: upt_Suc)
  with Cons[of "i + 1"] show ?case by (simp add: comp_def algebra_simps del: upt_Suc)
qed

lemma renumber_nodes:
  assumes "store_wf (nodes s)" and "distinct (map node_id sibs)"
    and "\<forall>m \<in> set sibs. map_of (nodes s) (node_id m) = Some m"
  shows "store_wf (nodes (renumber now sibs i s)) \<and>
         (\<forall>k. k \<notin> node_id ` set sibs \<longrightarrow> map_of (nodes (renumber now sibs i s)) k = map_of (nodes s) k) \<and>
         map (\<lambda>m. map_of (nodes (renumber now sibs i s)) (node_id m)) sibs =
           map Some (renumbered now sibs i)"
  using assms
proof (induction sibs arbitrary: i s)
  case Nil
  then show ?case by simp
next
  case (Cons m rest)
  let ?m' = "if orderIndex m \<noteq> i then m\<lparr>orderIndex := i, updatedAt := now\<rparr> else m"
  let ?s1 = "if orderIndex m \<noteq> i
             then s\<lparr>db := db_saveNode (m\<lparr>orderIndex := i, updatedAt := now\<rparr>) (db s),
                    nodes := AList.update (node_id m) (m\<lparr>orderIndex := i, updatedAt := now\<rparr>) (nodes s)\<rparr>
             else s"
  have step: "renumber now (m # rest) i s = renumber now rest (i + 1) ?s1"
    by (simp add: Let_def)
  from Cons.prems(3) have mm: "map_of (nodes s) (node_id m) = Some m" by simp
  have lk: "map_of (nodes ?s1) k = (if k = node_id m then Some ?m' else map_of (nodes s) k)" for k
    using mm by (simp add: update_conv')
  have wf1: "store_wf (nodes ?s1)" using Cons.prems(1) by (simp add: store_wf_update)
  have d1: "distinct (map node_id rest)" using Cons.prems(2) by simp
  have nm: "node_id m \<notin> node_id ` set rest" using Cons.prems(2) by simp
  have p1: "\<forall>r \<in> set rest. map_of (nodes ?s1) (node_id r) = Some r"
  proof
    fix r assume r: "r \<in> set rest"
    with nm have "node_id r \<noteq> node_id m" by (metis imageI)
    with Cons.prems(3) r show "map_of (nodes ?s1) (node_id r) = Some r" by (simp add: lk)
  qed
  note IH = Cons.IH[OF wf1 d1 p1, of "i + 1"]
  have a: "store_wf (nodes (renumber now (m # rest) i s))" using IH unfolding step by blast
  have b: "\<forall>k. k \<notin> node_id ` set (m # rest) \<longrightarrow>
             map_of (nodes (renumber now (m # rest) i s)) k = map_of (nodes s) k"
  proof (intro allI impI)
    fix k assume k: "k \<notin> node_id ` set (m # rest)"
    then have "k \<notin> node_id ` set rest" and "k \<noteq> node_id m" by auto
    with IH show "map_of (nodes (renumber now (m # rest) i s)) k = map_of (nodes s) k"
      unfolding step by (simp add: lk)
  qed
  have c1: "map_of (nodes (renumber now (m # rest) i s)) (node_id m) = Some ?m'"
    using IH nm unfolding step by (simp add: lk)
  have c2: "map (\<lambda>r. map_of (nodes (renumber now (m # rest) i s)) (node_id r)) rest =
            map Some (renumbered now rest (i + 1))"
    using IH unfolding step by blast
  from a b c1 c2 show ?case by simp
qed

lemma store_wf_ids_distinct: "store_wf ns \<Longrightarrow> distinct (map node_id (map snd ns))"
proof -
  assume w: "store_wf ns"
  then have e: "map node_id (map snd ns) = map fst ns" by (auto simp: store_wf_def list_all_iff)
  from w have "distinct (map fst ns)" by (simp add: store_wf_def)
  then show ?thesis by (simp only: e)
qed

lemma getChildren_distinct_ids: "store_wf ns \<Longrightarrow> distinct (map node_id (getChildren ns p))"
proof -
  assume w: "store_wf ns"
  then have "distinct (map node_id (map snd ns))" by (rule store_wf_ids_distinct)
  then have "distinct (map node_id (filter (\<lambda>n. parentId n = p) (map snd ns)))"
    by (rule distinct_map_filter)
  moreover have "mset (map node_id (getChildren ns p)) =
                 mset (map node_id (filter (\<lambda>n. parentId n = p) (map snd ns)))"
  proof -
    have "mset (map node_id (getChildren ns p)) = image_mset node_id (mset (getChildren ns p))"
      by simp
    also have "\<dots> = image_mset node_id (mset (filter (\<lambda>n. parentId n = p) (map snd ns)))"
      by (simp add: getChildren_def)
    finally show ?thesis by simp
  qed
  ultimately show ?thesis by (metis mset_eq_imp_distinct_iff)
qed

lemma distinct_of_map: "distinct (map f ys) \<Longrightarrow> distinct ys"
  by (simp add: distinct_map)

lemma store_wf_values_distinct: "store_wf ns \<Longrightarrow> distinct (map snd ns)"
  by (rule distinct_of_map[OF store_wf_ids_distinct])

lemma getChildren_renumber:
  assumes wf: "store_wf (nodes s)" and perm: "mset sibs = mset (getChildren (nodes s) p)"
  shows "getChildren (nodes (renumber now sibs 0 s)) p = renumbered now sibs 0"
proof -
  let ?ns' = "nodes (renumber now sibs 0 s)"
  let ?R = "renumbered now sibs 0"
  from perm have se: "set sibs = set (getChildren (nodes s) p)" by (rule mset_eq_setD)
  have di: "distinct (map node_id sibs)"
    using getChildren_distinct_ids[OF wf, of p] perm by (metis mset_eq_imp_distinct_iff mset_map)
  have mem: "\<forall>m \<in> set sibs. map_of (nodes s) (node_id m) = Some m"
    using se getChildren_iff[OF wf] by auto
  have par: "\<forall>m \<in> set sibs. parentId m = p" using se getChildren_iff[OF wf] by auto
  note rn = renumber_nodes[OF wf di mem, of now 0]
  from rn have wf': "store_wf ?ns'" by blast
  from rn have other: "\<And>k. k \<notin> node_id ` set sibs \<Longrightarrow> map_of ?ns' k = map_of (nodes s) k" by blast
  from rn have look: "map (\<lambda>m. map_of ?ns' (node_id m)) sibs = map Some ?R" by blast
  note rf = renumbered_fields[of now sibs 0]
  have len: "length ?R = length sibs" using rf by (metis length_map)
  have at: "map_of ?ns' (node_id (sibs ! j)) = Some (?R ! j)" if "j < length sibs" for j
    using nth_map[of j sibs "\<lambda>m. map_of ?ns' (node_id m)"] that look len by simp
  have idR: "node_id (?R ! j) = node_id (sibs ! j)" if "j < length sibs" for j
    using rf that len by (metis nth_map)
  have paR: "parentId (?R ! j) = p" if "j < length sibs" for j
  proof -
    from rf that len have "parentId (?R ! j) = parentId (sibs ! j)" by (metis nth_map)
    with par that show ?thesis by simp
  qed
  have oi: "map orderIndex ?R = map int [0..<length sibs]" using rf by simp
  have set_eq: "set (getChildren ?ns' p) = set ?R"
  proof (intro set_eqI iffI)
    fix x assume "x \<in> set (getChildren ?ns' p)"
    with getChildren_iff[OF wf'] have x: "map_of ?ns' (node_id x) = Some x" "parentId x = p" by auto
    show "x \<in> set ?R"
    proof (cases "node_id x \<in> node_id ` set sibs")
      case True
      then obtain j where j: "j < length sibs" "node_id (sibs ! j) = node_id x"
        by (metis imageE in_set_conv_nth)
      with at[OF j(1)] x(1) have "x = ?R ! j" by simp
      with j(1) len show ?thesis by simp
    next
      case False
      with other x(1) have "map_of (nodes s) (node_id x) = Some x" by simp
      with x(2) getChildren_iff[OF wf] se have "x \<in> set sibs" by auto
      with False show ?thesis by auto
    qed
  next
    fix x assume "x \<in> set ?R"
    then obtain j where j: "j < length sibs" "x = ?R ! j" using len by (metis in_set_conv_nth)
    from at[OF j(1)] idR[OF j(1)] paR[OF j(1)] j(2)
    have "map_of ?ns' (node_id x) = Some x \<and> parentId x = p" by simp
    with getChildren_iff[OF wf'] show "x \<in> set (getChildren ?ns' p)" by auto
  qed
  have dR: "distinct (map orderIndex ?R)" unfolding oi by (simp add: distinct_map inj_on_def)
  then have inj: "inj_on orderIndex (set ?R)" by (simp add: distinct_map)
  have dC: "distinct (getChildren ?ns' p)"
    using store_wf_values_distinct[OF wf'] by (simp add: getChildren_def)
  show ?thesis
  proof (rule map_sorted_distinct_set_unique[where f = orderIndex])
    show "inj_on orderIndex (set (getChildren ?ns' p) \<union> set ?R)" using inj set_eq by simp
    show "sorted (map orderIndex (getChildren ?ns' p))" by (simp add: getChildren_def)
    show "distinct (map orderIndex (getChildren ?ns' p))" using dC inj set_eq by (simp add: distinct_map)
    show "sorted (map orderIndex ?R)" unfolding oi by (simp add: sorted_map)
    show "distinct (map orderIndex ?R)" by (rule dR)
    show "set (getChildren ?ns' p) = set ?R" by (rule set_eq)
  qed
qed

lemma reorderNode_contiguous:
  assumes wf: "store_wf (nodes s)" and n: "map_of (nodes s) k = Some n"
    and c: "contiguous (nodes s) (parentId n)"
  shows "contiguous (nodes (reorderNode now k newIndex s)) (parentId n)"
proof -
  let ?sibs = "getChildren (nodes s) (parentId n)"
  let ?old = "findIndex (\<lambda>m. node_id m = k) ?sibs"
  show ?thesis
  proof (cases "?old = - 1 \<or> ?old = newIndex")
    case True
    with n c show ?thesis by (simp add: reorderNode_def Let_def)
  next
    case False
    then have ne: "?old \<noteq> - 1" by simp
    from findIndex_found[OF ne] have f: "0 \<le> ?old" "nat ?old < length ?sibs"
      "node_id (?sibs ! nat ?old) = k" by auto
    from f(2) have "?sibs ! nat ?old \<in> set ?sibs" by simp
    with getChildren_iff[OF wf] f(3) n have nth: "?sibs ! nat ?old = n" by auto
    let ?sibs2 = "splice newIndex 0 [n] (splice ?old 1 [] ?sibs)"
    have perm: "mset ?sibs2 = mset ?sibs" using mset_reposition[OF f(1,2), of newIndex] nth by simp
    have r: "nodes (reorderNode now k newIndex s) = nodes (renumber now ?sibs2 0 s)"
      using False n by (simp add: reorderNode_def Let_def emit_def)
    have "getChildren (nodes (renumber now ?sibs2 0 s)) (parentId n) = renumbered now ?sibs2 0"
      by (rule getChildren_renumber[OF wf perm])
    then show ?thesis using renumbered_fields[of now ?sibs2 0]
      by (simp add: contiguous_def r) (metis length_map)
  qed
qed

lemma createNode_orderIndex:
  "createNode newId now args s = Some (n, s') \<Longrightarrow>
   orderIndex n = int (length (getChildren (nodes s) (arg_parentId args)))"
  by (auto simp: createNode_def Let_def)

text \<open>
  C2, as the code has it: on a well-formed map, \<^verbatim>\<open>createNode\<close> (with a newly generated id)
  and \<^verbatim>\<open>reorderNode\<close> leave the sibling group they touch with \<^verbatim>\<open>orderIndex\<close> values
  \<open>0, \<dots>, n - 1\<close> when it had such values before the call. \<^verbatim>\<open>deleteNode\<close> does not renumber:
  every node that survives it keeps the record it had, so the group of the deleted node
  keeps the gap.
\<close>

theorem create_and_reorder_keep_contiguous:
  "store_wf (nodes s) \<longrightarrow>
     (map_of (nodes s) newId = None \<and> contiguous (nodes s) (arg_parentId args) \<and>
        createNode newId now args s = Some (n, s1) \<longrightarrow>
          contiguous (nodes s1) (arg_parentId args)) \<and>
     (map_of (nodes s) k = Some m \<and> contiguous (nodes s) (parentId m) \<longrightarrow>
          contiguous (nodes (reorderNode now k newIndex s)) (parentId m)) \<and>
     (deleteNode k s = Some s2 \<longrightarrow>
          (\<forall>j r. map_of (nodes s2) j = Some r \<longrightarrow> map_of (nodes s) j = Some r))"
proof (intro impI conjI allI)
  assume "map_of (nodes s) newId = None \<and> contiguous (nodes s) (arg_parentId args) \<and>
        createNode newId now args s = Some (n, s1)"
  then have f: "map_of (nodes s) newId = None" and c: "contiguous (nodes s) (arg_parentId args)"
    and cr: "createNode newId now args s = Some (n, s1)" by auto
  from createNode_result[OF cr] have ns: "nodes s1 = AList.update newId n (nodes s)"
    and p: "parentId n = arg_parentId args" by auto
  show "contiguous (nodes s1) (arg_parentId args)"
    unfolding ns by (rule contiguous_create[OF c f p createNode_orderIndex[OF cr]])
next
  assume wf: "store_wf (nodes s)"
    and "map_of (nodes s) k = Some m \<and> contiguous (nodes s) (parentId m)"
  then show "contiguous (nodes (reorderNode now k newIndex s)) (parentId m)"
    using reorderNode_contiguous[OF wf, of k m now newIndex] by simp
next
  fix j r
  assume wf: "store_wf (nodes s)" and d: "deleteNode k s = Some s2"
    and r: "map_of (nodes s2) j = Some r"
  from deleteNode_rec_cascades[OF d[unfolded deleteNode_def]] wf have "cascaded s s2" by simp
  from cascaded_sub[OF this r] show "map_of (nodes s) j = Some r" .
qed

theorem create_and_reorder_keep_contiguous_witness:
  "store_wf (nodes example_store) \<and>
   map_of (nodes example_store) ''n8'' = None \<and> contiguous (nodes example_store) (Some ''n2'') \<and>
   (\<exists>n s1. createNode ''n8'' 3
        \<lparr>arg_name = ''Mossback'', arg_type = Leaf, arg_parentId = Some ''n2'',
         arg_template = Some ''npc'', arg_icon = None, arg_active = False\<rparr> example_store =
        Some (n, s1) \<and> contiguous (nodes s1) (Some ''n2'')) \<and>
   map_of (nodes example_store) ''n4'' = Some (example_node ''n4'' None Folder ''Locations'' 1) \<and>
   contiguous (nodes example_store) None \<and>
   contiguous (nodes (reorderNode 3 ''n4'' 0 example_store)) None \<and>
   (\<exists>s2. deleteNode ''n7'' example_store = Some s2 \<and>
      map_of (nodes s2) ''n6'' = Some (example_node ''n6'' (Some ''n5'') Folder ''Emerald Mire'' 0) \<and>
      map_of (nodes example_store) ''n6'' = Some (example_node ''n6'' (Some ''n5'') Folder ''Emerald Mire'' 0))"
proof -
  let ?args = "\<lparr>arg_name = ''Mossback'', arg_type = Leaf, arg_parentId = Some ''n2'',
         arg_template = Some ''npc'', arg_icon = None, arg_active = False\<rparr>"
  have wf: "store_wf (nodes example_store)" by code_simp
  have f: "map_of (nodes example_store) ''n8'' = None" by (simp add: example_store_nodes example_nodes_def)
  have g1: "contiguous (nodes example_store) (Some ''n2'')" by code_simp
  have "\<not> Option.is_none (createNode ''n8'' 3 ?args example_store)" by code_simp
  then obtain n s1 where cr: "createNode ''n8'' 3 ?args example_store = Some (n, s1)"
    by (auto simp: Option.is_none_def)
  have m: "map_of (nodes example_store) ''n4'' = Some (example_node ''n4'' None Folder ''Locations'' 1)"
    by (simp add: example_store_nodes example_nodes_def)
  have g2: "contiguous (nodes example_store) None" by code_simp
  have "\<not> Option.is_none (deleteNode ''n7'' example_store)" by code_simp
  then obtain s2 where d: "deleteNode ''n7'' example_store = Some s2" by (auto simp: Option.is_none_def)
  have k6: "map_option (\<lambda>s2. map_of (nodes s2) ''n6'') (deleteNode ''n7'' example_store) =
     Some (Some (example_node ''n6'' (Some ''n5'') Folder ''Emerald Mire'' 0))" by code_simp
  from create_and_reorder_keep_contiguous[where s = example_store and newId = "''n8''" and args = ?args and now = 3 and n = n
      and ?s1.0 = s1 and k = "''n4''" and m = "example_node ''n4'' None Folder ''Locations'' 1"
      and newIndex = 0]
    wf f g1 cr m g2
  have r1: "contiguous (nodes s1) (Some ''n2'')"
    and r2: "contiguous (nodes (reorderNode 3 ''n4'' 0 example_store)) None"
    by (simp_all add: example_node_def)
  from create_and_reorder_keep_contiguous[where s = example_store and k = "''n7''" and ?s2.0 = s2] wf d k6
  have r3: "map_of (nodes example_store) ''n6'' = Some (example_node ''n6'' (Some ''n5'') Folder ''Emerald Mire'' 0)"
    by simp
  from wf f g1 cr r1 m g2 r2 d k6 r3 show ?thesis by auto
qed

text \<open>
  Deleting the first of the two root folders leaves the other alone at the root level with
  \<^verbatim>\<open>orderIndex\<close> 1: the root group was contiguous before the call and is not after it.
\<close>

theorem deleteNode_leaves_gap_counterexample:
  "contiguous (nodes example_store) None \<and>
   map_option (\<lambda>s'. map (\<lambda>m. (node_id m, orderIndex m)) (getChildren (nodes s') None))
     (deleteNode ''n1'' example_store) = Some [(''n4'', 1)] \<and>
   map_option (\<lambda>s'. contiguous (nodes s') None) (deleteNode ''n1'' example_store) = Some False"
  by code_simp


end
